theory Spec2Isabelle
  imports Main
begin

section \<open>AsyncQueue: data model\<close>

text \<open>
  The class \<open>AsyncQueue\<close> of \<open>src/core/index.ts\<close> keeps three arrays of task objects
  (\<open>waitList\<close>, \<open>excuteList\<close>, \<open>finishList\<close>), a queue status and its options.
  Task objects are shared by reference between the arrays, the closures of the promise
  chain and the caller, so the model keeps them in an explicit store and the arrays hold
  references.
\<close>

datatype task_status = STATUS_WAITING | STATUS_PEDDING | STATUS_SUCCESS | STATUS_FAILURE

datatype queue_status =
    STATUS_QUEUE_WAITING
  | STATUS_QUEUE_RUNNING
  | STATUS_QUEUE_BEFORE_PAUSE
  | STATUS_QUEUE_PAUSE
  | STATUS_QUEUE_FINISH

type_synonym ref = nat
type_synonym pid = nat
type_synonym aid = nat

text \<open>
  The execute operation of a task is caller code returning a promise.  The model knows two
  things about it: whether the promise it returns is already settled when it is returned
  (\<open>Instant\<close>) or is settled later by the environment (\<open>Later\<close>), and whether it is
  fulfilled (\<open>True\<close>) or rejected (\<open>False\<close>).
\<close>

datatype excute_fn = Instant bool | Later bool

record task =
  task_id :: string
  task_status :: task_status
  excute :: excute_fn
  excutePromise :: "pid option"

record options =
  immediate :: bool
  removeAfterFinish :: bool
  continueWhenError :: bool

datatype error = TaskIsExist | AsyncQueueIsRunning

datatype ack = Resolved | Rejected error

text \<open>
  What the queue does to the outside world: the events it publishes through \<open>emit\<close>, the
  failure callbacks it invokes and the console warning of \<open>exec\<close>.  A task event carries the
  task object; the model records its reference and the status a subscriber reads from it
  at that moment, together with the contents of \<open>waitQueue\<close> and \<open>finishQueue\<close> at that
  moment.
\<close>

datatype effect =
    EVENT_TASK_START ref task_status "ref list" "ref list"
  | EVENT_TASK_SUCCESS ref task_status "ref list" "ref list"
  | EVENT_TASK_FAILURE ref task_status "ref list" "ref list"
  | EVENT_QUEUE_START "ref list" "ref list"
  | EVENT_QUEUE_PAUSE "ref list" "ref list"
  | EVENT_QUEUE_FINISH "ref list" "ref list"
  | CALL_pushFailureFn error ref
  | CALL_resetFailFn error
  | CONSOLE_WARN

text \<open>
  The promise reaction jobs of the microtask queue.  For a task started by \<open>next\<close> the chain
  is \<open>excute(task).then(A).catch(B).finally(C)\<close>; \<open>pid\<close> names the promise the chain
  returns, which is stored in \<open>excutePromise\<close>.
  \<^item> \<open>ThenJob r p b\<close>: the reaction of \<open>.then(A)\<close>, the promise of \<open>excute\<close> being fulfilled
    (\<open>b\<close>) or rejected;
  \<^item> \<open>CatchJob r p b\<close>: the reaction of \<open>.catch(B)\<close>, the promise of \<open>.then\<close> being fulfilled
    or rejected;
  \<^item> \<open>FinallyJob r p\<close>: the reaction of \<open>.finally(C)\<close>;
  \<^item> \<open>ThunkJob\<close>, \<open>ResolveThenableJob p\<close>, \<open>FulfilJob p\<close>: the three jobs by which the promise
    returned by \<open>.finally\<close> adopts the state of the promise its handler returns;
  \<^item> \<open>AllElemJob a\<close>: one element of the \<open>Promise.all\<close> numbered \<open>a\<close> is fulfilled;
  \<^item> \<open>PauseFinallyJob\<close>: the \<open>.finally\<close> callback of \<open>pause\<close>.
\<close>

datatype job =
    ThenJob ref pid bool
  | CatchJob ref pid bool
  | FinallyJob ref pid
  | ThunkJob
  | ResolveThenableJob pid
  | FulfilJob pid
  | AllElemJob aid
  | PauseFinallyJob

record state =
  waitList :: "ref list"
  excuteList :: "ref list"
  finishList :: "ref list"
  status :: queue_status
  options :: options
  store :: "ref \<Rightarrow> task"
  next_ref :: ref
  jobs :: "job list"
  pending :: "(ref \<times> pid \<times> bool) list"
  fulfilled :: "pid list"
  reactions :: "(pid \<times> aid) list"
  remaining :: "aid \<Rightarrow> nat"
  next_pid :: pid
  next_aid :: aid
  trace :: "effect list"

definition default_options :: options where
  "default_options = \<lparr>immediate = False, removeAfterFinish = False, continueWhenError = False\<rparr>"

definition blank_task :: task where
  "blank_task = \<lparr>task_id = [], task_status = STATUS_WAITING, excute = Instant True,
                  excutePromise = None\<rparr>"

text \<open>The constructor: \<open>new AsyncQueue(userOptions)\<close>.\<close>

definition new_queue :: "options \<Rightarrow> state" where
  "new_queue opts =
     \<lparr>waitList = [], excuteList = [], finishList = [], status = STATUS_QUEUE_WAITING,
      options = opts, store = (\<lambda>_. blank_task), next_ref = 0, jobs = [], pending = [],
      fulfilled = [], reactions = [], remaining = (\<lambda>_. 0), next_pid = 0, next_aid = 0,
      trace = []\<rparr>"

section \<open>Status predicates and lookup\<close>

definition isRunning :: "state \<Rightarrow> bool" where
  "isRunning s = (status s = STATUS_QUEUE_RUNNING)"

definition isPause :: "state \<Rightarrow> bool" where
  "isPause s = (status s = STATUS_QUEUE_PAUSE)"

definition isBeforePause :: "state \<Rightarrow> bool" where
  "isBeforePause s = (status s = STATUS_QUEUE_BEFORE_PAUSE)"

definition findTaskById :: "string \<Rightarrow> state \<Rightarrow> ref option" where
  "findTaskById i s =
     (case find (\<lambda>r. task_id (store s r) = i) (waitList s) of
        Some r \<Rightarrow> Some r
      | None \<Rightarrow>
          (case find (\<lambda>r. task_id (store s r) = i) (excuteList s) of
             Some r \<Rightarrow> Some r
           | None \<Rightarrow> find (\<lambda>r. task_id (store s r) = i) (finishList s)))"

definition isExist :: "string \<Rightarrow> state \<Rightarrow> bool" where
  "isExist i s =
     (find (\<lambda>r. task_id (store s r) = i) (waitList s) \<noteq> None \<or>
      find (\<lambda>r. task_id (store s r) = i) (excuteList s) \<noteq> None \<or>
      find (\<lambda>r. task_id (store s r) = i) (finishList s) \<noteq> None)"

section \<open>The engine\<close>

text \<open>
  The queue runs on the JavaScript event loop.  Its own code is synchronous; what it
  leaves behind are promise reaction jobs, which the runtime runs one after the other
  from the microtask queue.  The model keeps that queue explicitly (\<open>jobs\<close>), together
  with the promises of \<open>excute\<close> calls that are still pending (\<open>pending\<close>), the
  promises of chains that are fulfilled (\<open>fulfilled\<close>) and the bookkeeping of the
  \<open>Promise.all\<close> calls of \<open>pause\<close> (\<open>reactions\<close>, \<open>remaining\<close>).  \<open>Emitter.emit\<close>
  catches what a handler throws, so no callback of the chain throws.  An \<open>excute\<close> is
  taken to return a promise, as its type says.

  The queue also runs caller code: \<open>Emitter.emit\<close> calls the handlers subscribed to the
  event, and \<open>next()\<close> calls the body of \<open>excute\<close>.  In this section and the next that
  code leaves the queue alone: the subscribers only observe (\<open>emit\<close> appends to \<open>trace\<close>),
  a task body only returns its promise, and the caller acts between two jobs.  The
  section on caller code run by the queue gives the same engine with caller code that
  calls the queue back.
\<close>

definition emit :: "effect \<Rightarrow> state \<Rightarrow> state" where
  "emit e s = s\<lparr>trace := trace s @ [e]\<rparr>"

definition enqueue :: "job \<Rightarrow> state \<Rightarrow> state" where
  "enqueue j s = s\<lparr>jobs := jobs s @ [j]\<rparr>"

definition set_task_status :: "ref \<Rightarrow> task_status \<Rightarrow> state \<Rightarrow> state" where
  "set_task_status r st s = s\<lparr>store := (store s)(r := (store s r)\<lparr>task_status := st\<rparr>)\<rparr>"

text \<open>
  \<open>task.excute(task).then(A)\<close>: an already settled promise queues the reaction of \<open>.then\<close> at
  once; a pending one keeps it until the environment settles the promise.
\<close>

definition call_excute :: "ref \<Rightarrow> pid \<Rightarrow> state \<Rightarrow> state" where
  "call_excute r p s =
     (case excute (store s r) of
        Instant b \<Rightarrow> enqueue (ThenJob r p b) s
      | Later b \<Rightarrow> s\<lparr>pending := pending s @ [(r, p, b)]\<rparr>)"

text \<open>
  \<open>next()\<close>, lines 138 to 197: the synchronous part.  The order of the source is kept: the
  task is pushed on \<open>excuteList\<close>, \<open>EVENT_TASK_START\<close> is emitted, the status is set to
  \<open>STATUS_PEDDING\<close>, \<open>excute\<close> is called, and the promise of the chain is stored.
\<close>

definition next_task :: "state \<Rightarrow> state" where
  "next_task s =
     (if isBeforePause s then s
      else
        (case waitList s of
           [] \<Rightarrow>
             (let s1 = s\<lparr>status := STATUS_QUEUE_FINISH\<rparr>
              in emit (EVENT_QUEUE_FINISH (waitList s1) (finishList s1)) s1)
         | r # w \<Rightarrow>
             (let s1 = s\<lparr>waitList := w\<rparr>;
                  s2 = s1\<lparr>excuteList := excuteList s1 @ [r]\<rparr>;
                  s3 = emit (EVENT_TASK_START r (task_status (store s2 r)) (waitList s2)
                               (finishList s2)) s2;
                  s4 = set_task_status r STATUS_PEDDING s3;
                  p = next_pid s4;
                  s5 = call_excute r p (s4\<lparr>next_pid := Suc p\<rparr>)
              in s5\<lparr>store := (store s5)(r := (store s5 r)\<lparr>excutePromise := Some p\<rparr>)\<rparr>)))"

text \<open>
  The callbacks of the chain, one reaction job each.  \<open>A\<close> (lines 153 to 165) runs only
  when \<open>excute\<close> fulfilled, a rejection passes through \<open>.then\<close>; \<open>B\<close> (lines 166 to 174) runs
  only on a rejection; \<open>C\<close> (lines 175 to 188) always runs.
\<close>

fun run_job :: "job \<Rightarrow> state \<Rightarrow> state" where
  "run_job (ThenJob r p b) s =
     (if b then
        (let s1 = set_task_status r STATUS_SUCCESS s;
             s2 = emit (EVENT_TASK_SUCCESS r (task_status (store s1 r)) (waitList s1)
                          (finishList s1)) s1;
             s3 = (if \<not> continueWhenError (options s2) then next_task s2 else s2)
         in enqueue (CatchJob r p True) s3)
      else enqueue (CatchJob r p False) s)"
| "run_job (CatchJob r p b) s =
     (if b then enqueue (FinallyJob r p) s
      else
        (let s1 = set_task_status r STATUS_FAILURE s;
             s2 = emit (EVENT_TASK_FAILURE r (task_status (store s1 r)) (waitList s1)
                          (finishList s1)) s1
         in enqueue (FinallyJob r p) s2))"
| "run_job (FinallyJob r p) s =
     (let s1 = (if \<not> removeAfterFinish (options s)
                then s\<lparr>finishList := finishList s @ [r]\<rparr> else s);
          s2 = (if continueWhenError (options s1) then next_task s1 else s1);
          s3 = s2\<lparr>excuteList := drop 1 (excuteList s2)\<rparr>
      in enqueue (ResolveThenableJob p) (enqueue ThunkJob s3))"
| "run_job ThunkJob s = s"
| "run_job (ResolveThenableJob p) s = enqueue (FulfilJob p) s"
| "run_job (FulfilJob p) s =
     (let hit = filter (\<lambda>(q, a). q = p) (reactions s);
          s1 = s\<lparr>fulfilled := fulfilled s @ [p],
                 reactions := filter (\<lambda>(q, a). q \<noteq> p) (reactions s)\<rparr>
      in s1\<lparr>jobs := jobs s1 @ map (\<lambda>(q, a). AllElemJob a) hit\<rparr>)"
| "run_job (AllElemJob a) s =
     (let n = remaining s a - 1;
          s1 = s\<lparr>remaining := (remaining s)(a := n)\<rparr>
      in if n = 0 then enqueue PauseFinallyJob s1 else s1)"
| "run_job PauseFinallyJob s =
     (if waitList s = [] then
        (let s1 = s\<lparr>status := STATUS_QUEUE_FINISH\<rparr>
         in emit (EVENT_QUEUE_FINISH (waitList s1) (finishList s1)) s1)
      else
        (let s1 = s\<lparr>status := STATUS_QUEUE_PAUSE\<rparr>
         in emit (EVENT_QUEUE_PAUSE (waitList s1) (finishList s1)) s1))"

text \<open>One turn of the microtask loop: the oldest job is taken off the queue and run.\<close>

definition microtask :: "state \<Rightarrow> state" where
  "microtask s = (case jobs s of [] \<Rightarrow> s | j # js \<Rightarrow> run_job j (s\<lparr>jobs := js\<rparr>))"

text \<open>
  The microtask loop runs until the queue is empty.  \<open>drain n\<close> runs at most \<open>n\<close> jobs and
  answers \<open>None\<close> when jobs are left.
\<close>

fun drain :: "nat \<Rightarrow> state \<Rightarrow> state option" where
  "drain 0 s = (if jobs s = [] then Some s else None)"
| "drain (Suc n) s = (if jobs s = [] then Some s else drain n (microtask s))"

text \<open>
  The environment settles the \<open>k\<close>-th pending promise returned by an \<open>excute\<close>: the reaction
  of \<open>.then(A)\<close> is queued.
\<close>

definition settle :: "nat \<Rightarrow> state \<Rightarrow> state" where
  "settle k s =
     (if k < length (pending s) then
        (case pending s ! k of
           (r, p, b) \<Rightarrow>
             enqueue (ThenJob r p b) (s\<lparr>pending := take k (pending s) @ drop (Suc k) (pending s)\<rparr>))
      else s)"

text \<open>
  The event loop with no caller in it: microtasks first; when none is left the oldest
  pending promise of an \<open>excute\<close> is settled; it stops when nothing is queued and
  nothing is pending.  \<open>None\<close> when \<open>n\<close> turns were not enough.
\<close>

fun event_loop :: "nat \<Rightarrow> state \<Rightarrow> state option" where
  "event_loop 0 s = (if jobs s = [] \<and> pending s = [] then Some s else None)"
| "event_loop (Suc n) s =
     (if jobs s \<noteq> [] then event_loop n (microtask s)
      else if pending s \<noteq> [] then event_loop n (settle 0 s)
      else Some s)"

section \<open>Public operations\<close>

definition exec :: "state \<Rightarrow> state" where
  "exec s =
     (if isRunning s then emit CONSOLE_WARN s
      else
        (let s1 = s\<lparr>status := STATUS_QUEUE_RUNNING\<rparr>;
             s2 = emit (EVENT_QUEUE_START (waitList s1) (finishList s1)) s1
         in next_task s2))"

text \<open>
  \<open>push(id, excuteFn, pushFailureFn?)\<close>, lines 113 to 135; \<open>cb\<close> says whether the optional
  callback was given.
\<close>

definition push :: "string \<Rightarrow> excute_fn \<Rightarrow> bool \<Rightarrow> state \<Rightarrow> state \<times> ack" where
  "push i f cb s =
     (case findTaskById i s of
        Some existTask \<Rightarrow>
          ((if cb then emit (CALL_pushFailureFn TaskIsExist existTask) s else s),
           Rejected TaskIsExist)
      | None \<Rightarrow>
          (let r = next_ref s;
               s1 = s\<lparr>store := (store s)(r := \<lparr>task_id = i, task_status = STATUS_WAITING,
                                               excute = f, excutePromise = None\<rparr>),
                      next_ref := Suc r\<rparr>;
               s2 = s1\<lparr>waitList := waitList s1 @ [r]\<rparr>;
               s3 = (if immediate (options s2) then exec s2 else s2)
           in (s3, Resolved)))"

text \<open>\<open>findIndex\<close> and \<open>splice(index, 1)\<close>: the first entry with the id is removed.\<close>

fun remove_first :: "('a \<Rightarrow> bool) \<Rightarrow> 'a list \<Rightarrow> 'a list" where
  "remove_first P [] = []"
| "remove_first P (x # xs) = (if P x then xs else x # remove_first P xs)"

definition removeFromFinishList :: "string \<Rightarrow> state \<Rightarrow> state" where
  "removeFromFinishList i s =
     s\<lparr>finishList := remove_first (\<lambda>x. task_id (store s x) = i) (finishList s)\<rparr>"

definition removeFromExcuteList :: "string \<Rightarrow> state \<Rightarrow> state" where
  "removeFromExcuteList i s =
     s\<lparr>excuteList := remove_first (\<lambda>x. task_id (store s x) = i) (excuteList s)\<rparr>"

definition removeFromWaitList :: "string \<Rightarrow> state \<Rightarrow> state" where
  "removeFromWaitList i s =
     s\<lparr>waitList := remove_first (\<lambda>x. task_id (store s x) = i) (waitList s)\<rparr>"

definition retry :: "ref \<Rightarrow> state \<Rightarrow> state" where
  "retry r s =
     (let s1 = removeFromFinishList (task_id (store s r)) s;
          s2 = s1\<lparr>waitList := waitList s1 @ [r]\<rparr>
      in exec s2)"

definition retryAll :: "state \<Rightarrow> state" where
  "retryAll s =
     (let failureTasks = filter (\<lambda>r. task_status (store s r) = STATUS_FAILURE) (finishList s);
          successTasks = filter (\<lambda>r. task_status (store s r) = STATUS_SUCCESS) (finishList s);
          s1 = fold retry failureTasks s
      in s1\<lparr>finishList := successTasks\<rparr>)"

text \<open>
  \<open>Promise.all(this.excuteList.map((task) => task.excutePromise!))\<close>: each element is
  passed through \<open>Promise.resolve\<close> and given a \<open>then\<close> reaction.  An element that is
  \<open>undefined\<close> or an already fulfilled promise queues its reaction at once.
\<close>

definition all_element :: "aid \<Rightarrow> ref \<Rightarrow> state \<Rightarrow> state" where
  "all_element a r s =
     (case excutePromise (store s r) of
        None \<Rightarrow> enqueue (AllElemJob a) s
      | Some p \<Rightarrow>
          (if p \<in> set (fulfilled s) then enqueue (AllElemJob a) s
           else s\<lparr>reactions := reactions s @ [(p, a)]\<rparr>))"

definition pause :: "state \<Rightarrow> state" where
  "pause s =
     (if \<not> isRunning s then s
      else
        (let s1 = s\<lparr>status := STATUS_QUEUE_BEFORE_PAUSE\<rparr>;
             a = next_aid s1;
             s2 = s1\<lparr>next_aid := Suc a, remaining := (remaining s1)(a := length (excuteList s1))\<rparr>;
             s3 = fold (all_element a) (excuteList s2) s2
         in if excuteList s3 = [] then enqueue PauseFinallyJob s3 else s3))"

definition resume :: "state \<Rightarrow> state" where
  "resume s = (if \<not> isPause s then s else exec s)"

text \<open>
  \<open>reset(resetFailFn?)\<close>, lines 294 to 313.  The running branch returns a rejected promise,
  the other branch returns nothing.
\<close>

definition reset :: "bool \<Rightarrow> state \<Rightarrow> state \<times> ack option" where
  "reset cb s =
     (if isRunning s then
        ((if cb then emit (CALL_resetFailFn AsyncQueueIsRunning) s else s),
         Some (Rejected AsyncQueueIsRunning))
      else
        (let s1 = s\<lparr>waitList := waitList s @ finishList s\<rparr>;
             s2 = s1\<lparr>finishList := []\<rparr>
         in (fold (\<lambda>r. set_task_status r STATUS_WAITING) (waitList s2) s2, None)))"

section \<open>Observations used in the statements\<close>

text \<open>All task objects the queue tracks, list by list.\<close>

definition tracked :: "state \<Rightarrow> ref list" where
  "tracked s = waitList s @ excuteList s @ finishList s"

text \<open>The identity invariant of the data model: no id is tracked twice.\<close>

definition ids_distinct :: "state \<Rightarrow> bool" where
  "ids_distinct s = distinct (map (\<lambda>r. task_id (store s r)) (tracked s))"

text \<open>The tasks of the \<open>EVENT_TASK_START\<close> notifications, in the order of publication.\<close>

fun started :: "effect list \<Rightarrow> ref list" where
  "started [] = []"
| "started (EVENT_TASK_START r st w f # es) = r # started es"
| "started (e # es) = started es"

fun queue_finishes :: "effect list \<Rightarrow> nat" where
  "queue_finishes [] = 0"
| "queue_finishes (EVENT_QUEUE_FINISH w f # es) = Suc (queue_finishes es)"
| "queue_finishes (e # es) = queue_finishes es"

text \<open>A caller submitting tasks one after the other, without a failure callback.\<close>

fun pushes :: "(string \<times> excute_fn) list \<Rightarrow> state \<Rightarrow> state" where
  "pushes [] s = s"
| "pushes ((i, f) # ts) s = pushes ts (fst (push i f False s))"

definition timed :: "bool \<Rightarrow> bool \<Rightarrow> excute_fn" where
  "timed later b = (if later then Later b else Instant b)"

text \<open>The three tasks of the halt-on-failure and continue-on-failure scenarios.\<close>

definition abc_queue :: "options \<Rightarrow> bool \<Rightarrow> bool \<Rightarrow> bool \<Rightarrow> state" where
  "abc_queue opts la lb lc =
     exec (pushes [(''A'', timed la True), (''B'', timed lb False), (''C'', timed lc True)]
             (new_queue opts))"

text \<open>States reached by a caller, used as concrete inputs below.\<close>

definition continue_options :: options where
  "continue_options = \<lparr>immediate = False, removeAfterFinish = False, continueWhenError = True\<rparr>"

definition one_started :: state where
  "one_started = exec (pushes [(''a'', Later True)] (new_queue default_options))"

definition two_started :: state where
  "two_started = exec (pushes [(''a'', Later True), (''b'', Later True)] (new_queue default_options))"


fun microtasks :: "nat \<Rightarrow> state \<Rightarrow> state" where
  "microtasks 0 s = s"
| "microtasks (Suc n) s = microtasks n (microtask s)"


definition finished_ab :: state where
  "finished_ab =
     the (event_loop 40 (exec (pushes [(''A'', Instant True), (''B'', Instant False)]
                                 (new_queue continue_options))))"

definition reset_example :: state where
  "reset_example = fst (push ''C'' (Instant True) False finished_ab)"

definition stalled_example :: state where
  "stalled_example =
     the (event_loop 40 (exec (pushes [(''A'', Instant False), (''C'', Instant True)]
                                 (new_queue default_options))))"

section \<open>Caller code run by the queue\<close>

text \<open>
  The queue runs caller code synchronously in two kinds of places.  \<open>Emitter.emit\<close> calls
  the handlers subscribed to the event before it returns, and \<open>next()\<close> calls the body of
  the task's \<open>excute\<close> (line 152).  That code holds the queue object and can call its
  public operations.  Here the engine is written with the caller code as parameters:
  \<open>subs e\<close> is what the subscribers do to the queue when \<open>e\<close> is published (for
  \<open>CALL_pushFailureFn\<close>, what the callback does), and \<open>body r\<close> is what the body of the
  \<open>excute\<close> of task \<open>r\<close> does to the queue before it returns its promise.  The console
  warning of \<open>exec\<close> runs no caller code, and neither do the jobs by which a promise
  adopts another or \<open>Promise.all\<close> counts its elements.
\<close>

definition emit_with :: "(effect \<Rightarrow> state \<Rightarrow> state) \<Rightarrow> effect \<Rightarrow> state \<Rightarrow> state" where
  "emit_with subs e s = subs e (emit e s)"

text \<open>
  \<open>next()\<close>, lines 138 to 197.  The subscribers of \<open>EVENT_TASK_START\<close> (line 145) and the
  body of \<open>excute\<close> (line 152) both run when the task is already in \<open>excuteList\<close> and
  before \<open>task.excutePromise\<close> is assigned: the assignment of line 151 is made when the
  chain has been built.  The callbacks of the chain hold the task in a local variable,
  so whatever the caller code does to the lists, they act on \<open>r\<close>.
\<close>

definition next_with ::
  "(effect \<Rightarrow> state \<Rightarrow> state) \<Rightarrow> (ref \<Rightarrow> state \<Rightarrow> state) \<Rightarrow> state \<Rightarrow> state" where
  "next_with subs body s =
     (if isBeforePause s then s
      else
        (case waitList s of
           [] \<Rightarrow>
             (let s1 = s\<lparr>status := STATUS_QUEUE_FINISH\<rparr>
              in emit_with subs (EVENT_QUEUE_FINISH (waitList s1) (finishList s1)) s1)
         | r # w \<Rightarrow>
             (let s1 = s\<lparr>waitList := w\<rparr>;
                  s2 = s1\<lparr>excuteList := excuteList s1 @ [r]\<rparr>;
                  s3 = emit_with subs (EVENT_TASK_START r (task_status (store s2 r))
                                         (waitList s2) (finishList s2)) s2;
                  s4 = set_task_status r STATUS_PEDDING s3;
                  s5 = body r s4;
                  p = next_pid s5;
                  s6 = call_excute r p (s5\<lparr>next_pid := Suc p\<rparr>)
              in s6\<lparr>store := (store s6)(r := (store s6 r)\<lparr>excutePromise := Some p\<rparr>)\<rparr>)))"

definition exec_with ::
  "(effect \<Rightarrow> state \<Rightarrow> state) \<Rightarrow> (ref \<Rightarrow> state \<Rightarrow> state) \<Rightarrow> state \<Rightarrow> state" where
  "exec_with subs body s =
     (if isRunning s then emit CONSOLE_WARN s
      else
        (let s1 = s\<lparr>status := STATUS_QUEUE_RUNNING\<rparr>;
             s2 = emit_with subs (EVENT_QUEUE_START (waitList s1) (finishList s1)) s1
         in next_with subs body s2))"

fun run_job_with ::
  "(effect \<Rightarrow> state \<Rightarrow> state) \<Rightarrow> (ref \<Rightarrow> state \<Rightarrow> state) \<Rightarrow> job \<Rightarrow> state \<Rightarrow> state" where
  "run_job_with subs body (ThenJob r p b) s =
     (if b then
        (let s1 = set_task_status r STATUS_SUCCESS s;
             s2 = emit_with subs (EVENT_TASK_SUCCESS r (task_status (store s1 r)) (waitList s1)
                                    (finishList s1)) s1;
             s3 = (if \<not> continueWhenError (options s2) then next_with subs body s2 else s2)
         in enqueue (CatchJob r p True) s3)
      else enqueue (CatchJob r p False) s)"
| "run_job_with subs body (CatchJob r p b) s =
     (if b then enqueue (FinallyJob r p) s
      else
        (let s1 = set_task_status r STATUS_FAILURE s;
             s2 = emit_with subs (EVENT_TASK_FAILURE r (task_status (store s1 r)) (waitList s1)
                                    (finishList s1)) s1
         in enqueue (FinallyJob r p) s2))"
| "run_job_with subs body (FinallyJob r p) s =
     (let s1 = (if \<not> removeAfterFinish (options s)
                then s\<lparr>finishList := finishList s @ [r]\<rparr> else s);
          s2 = (if continueWhenError (options s1) then next_with subs body s1 else s1);
          s3 = s2\<lparr>excuteList := drop 1 (excuteList s2)\<rparr>
      in enqueue (ResolveThenableJob p) (enqueue ThunkJob s3))"
| "run_job_with subs body PauseFinallyJob s =
     (if waitList s = [] then
        (let s1 = s\<lparr>status := STATUS_QUEUE_FINISH\<rparr>
         in emit_with subs (EVENT_QUEUE_FINISH (waitList s1) (finishList s1)) s1)
      else
        (let s1 = s\<lparr>status := STATUS_QUEUE_PAUSE\<rparr>
         in emit_with subs (EVENT_QUEUE_PAUSE (waitList s1) (finishList s1)) s1))"
| "run_job_with subs body j s = run_job j s"

definition microtask_with ::
  "(effect \<Rightarrow> state \<Rightarrow> state) \<Rightarrow> (ref \<Rightarrow> state \<Rightarrow> state) \<Rightarrow> state \<Rightarrow> state" where
  "microtask_with subs body s =
     (case jobs s of [] \<Rightarrow> s | j # js \<Rightarrow> run_job_with subs body j (s\<lparr>jobs := js\<rparr>))"

fun microtasks_with ::
  "(effect \<Rightarrow> state \<Rightarrow> state) \<Rightarrow> (ref \<Rightarrow> state \<Rightarrow> state) \<Rightarrow> nat \<Rightarrow> state \<Rightarrow> state" where
  "microtasks_with subs body 0 s = s"
| "microtasks_with subs body (Suc n) s = microtasks_with subs body n (microtask_with subs body s)"

definition push_with ::
  "(effect \<Rightarrow> state \<Rightarrow> state) \<Rightarrow> (ref \<Rightarrow> state \<Rightarrow> state) \<Rightarrow>
   string \<Rightarrow> excute_fn \<Rightarrow> bool \<Rightarrow> state \<Rightarrow> state \<times> ack" where
  "push_with subs body i f cb s =
     (case findTaskById i s of
        Some existTask \<Rightarrow>
          ((if cb then emit_with subs (CALL_pushFailureFn TaskIsExist existTask) s else s),
           Rejected TaskIsExist)
      | None \<Rightarrow>
          (let r = next_ref s;
               s1 = s\<lparr>store := (store s)(r := \<lparr>task_id = i, task_status = STATUS_WAITING,
                                               excute = f, excutePromise = None\<rparr>),
                      next_ref := Suc r\<rparr>;
               s2 = s1\<lparr>waitList := waitList s1 @ [r]\<rparr>;
               s3 = (if immediate (options s2) then exec_with subs body s2 else s2)
           in (s3, Resolved)))"

definition resume_with ::
  "(effect \<Rightarrow> state \<Rightarrow> state) \<Rightarrow> (ref \<Rightarrow> state \<Rightarrow> state) \<Rightarrow> state \<Rightarrow> state" where
  "resume_with subs body s = (if \<not> isPause s then s else exec_with subs body s)"

text \<open>
  Caller code: subscribers that only observe, and task bodies that leave the queue
  alone; a subscriber of \<open>EVENT_TASK_START\<close> that calls \<open>pause()\<close>, as in
  \<open>queue.on(AsyncQueue.EVENT_TASK_START, () => queue.pause())\<close>; a task body that calls
  \<open>pause()\<close> before it returns its promise.
\<close>

definition observe_only :: "effect \<Rightarrow> state \<Rightarrow> state" where
  "observe_only e s = s"

definition plain_body :: "ref \<Rightarrow> state \<Rightarrow> state" where
  "plain_body r s = s"

fun pause_on_start :: "effect \<Rightarrow> state \<Rightarrow> state" where
  "pause_on_start (EVENT_TASK_START r st w f) s = pause s"
| "pause_on_start e s = s"

definition pause_in_body :: "ref \<Rightarrow> state \<Rightarrow> state" where
  "pause_in_body r s = pause s"

text \<open>
  Two tasks \<open>a\<close> and \<open>b\<close> whose promises settle later are submitted to a new queue and
  \<open>exec()\<close> is called: with the pausing subscriber, and with pausing task bodies.  Then
  the two microtasks that follow, then \<open>a\<close> settles and its \<open>then\<close> callback runs.
\<close>

definition ab_waiting :: state where
  "ab_waiting = pushes [(''a'', Later True), (''b'', Later True)] (new_queue default_options)"

definition handler_pause_0 :: state where
  "handler_pause_0 = exec_with pause_on_start plain_body ab_waiting"

definition handler_pause_2 :: state where
  "handler_pause_2 = microtasks_with pause_on_start plain_body 2 handler_pause_0"

definition handler_pause_3 :: state where
  "handler_pause_3 = microtask_with pause_on_start plain_body (settle 0 handler_pause_2)"

definition body_pause_0 :: state where
  "body_pause_0 = exec_with observe_only pause_in_body ab_waiting"

definition body_pause_2 :: state where
  "body_pause_2 = microtasks_with observe_only pause_in_body 2 body_pause_0"

definition body_pause_3 :: state where
  "body_pause_3 = microtask_with observe_only pause_in_body (settle 0 body_pause_2)"

section \<open>Runs and invariants\<close>

text \<open>
  A bound on the number of microtasks still to run: every job is weighed by the length
  of the rest of its chain, a waiting task by its whole chain, a \<open>Promise.all\<close> reaction by
  the two jobs it leads to.
\<close>

fun job_weight :: "job \<Rightarrow> nat" where
  "job_weight (ThenJob r p b) = 6"
| "job_weight (CatchJob r p b) = 5"
| "job_weight (FinallyJob r p) = 4"
| "job_weight ThunkJob = 1"
| "job_weight (ResolveThenableJob p) = 2"
| "job_weight (FulfilJob p) = 1"
| "job_weight (AllElemJob a) = 2"
| "job_weight PauseFinallyJob = 1"

definition work :: "state \<Rightarrow> nat" where
  "work s =
     sum_list (map job_weight (jobs s)) + 6 * length (waitList s) + 3 * length (reactions s)"

text \<open>The jobs that go on to call \<open>next()\<close> (\<open>c\<close> is \<open>continueWhenError\<close>).\<close>

fun advances :: "bool \<Rightarrow> job \<Rightarrow> bool" where
  "advances c (ThenJob r p b) = (b \<or> c)"
| "advances c (CatchJob r p b) = c"
| "advances c (FinallyJob r p) = c"
| "advances c j = False"

text \<open>
  The ids of the tasks already started, in the order of their start notifications,
  followed by the ids of the waiting tasks.
\<close>

definition start_order :: "state \<Rightarrow> string list" where
  "start_order s = map (\<lambda>r. task_id (store s r)) (started (trace s) @ waitList s)"

definition fifo_core :: "string list \<Rightarrow> state \<Rightarrow> bool" where
  "fifo_core ids s =
     (start_order s = ids \<and>
      (\<forall>r \<in> set (waitList s).
         \<exists>b. excute (store s r) = Instant b \<and> (b \<or> continueWhenError (options s))) \<and>
      \<not> isBeforePause s)"

definition fifo_live :: "state \<Rightarrow> bool" where
  "fifo_live s =
     (waitList s \<noteq> [] \<longrightarrow>
        (\<exists>j \<in> set (jobs s). advances (continueWhenError (options s)) j))"

definition fifo_inv :: "string list \<Rightarrow> state \<Rightarrow> bool" where
  "fifo_inv ids s = (fifo_core ids s \<and> fifo_live s)"

definition fifo_pre :: "options \<Rightarrow> string list \<Rightarrow> state \<Rightarrow> bool" where
  "fifo_pre opts ids s =
     (fifo_core ids s \<and>
      (isRunning s \<longrightarrow> (\<exists>j \<in> set (jobs s). advances (continueWhenError opts) j)) \<and>
      options s = opts \<and>
      (\<forall>r \<in> set (tracked s) \<union> set (started (trace s)). r < next_ref s) \<and>
      (\<lambda>r. task_id (store s r)) ` set (tracked s) \<subseteq> set ids)"

text \<open>
  The states a queue constructed with \<open>opts\<close> can be in when its caller submits tasks
  and calls \<open>exec()\<close>, \<open>pause()\<close> and \<open>resume()\<close>, at any moment between two microtasks,
  while the environment settles pending promises and the microtask loop runs.  The
  subscribers \<open>subs\<close> and the task bodies \<open>body\<close> run inside the steps, where the queue
  calls them.  \<open>exec()\<close> is not called (by the caller, or by \<open>push\<close> with \<open>immediate\<close>)
  while a pause is waiting for the task in flight.
\<close>

inductive caller_run ::
  "(effect \<Rightarrow> state \<Rightarrow> state) \<Rightarrow> (ref \<Rightarrow> state \<Rightarrow> state) \<Rightarrow> options \<Rightarrow> state \<Rightarrow> bool"
  for subs :: "effect \<Rightarrow> state \<Rightarrow> state" and body :: "ref \<Rightarrow> state \<Rightarrow> state"
    and opts :: options where
  run_new: "caller_run subs body opts (new_queue opts)"
| run_push: "caller_run subs body opts s \<Longrightarrow> \<not> (immediate (options s) \<and> isBeforePause s) \<Longrightarrow>
             caller_run subs body opts (fst (push_with subs body i f cb s))"
| run_exec: "caller_run subs body opts s \<Longrightarrow> \<not> isBeforePause s \<Longrightarrow>
             caller_run subs body opts (exec_with subs body s)"
| run_pause: "caller_run subs body opts s \<Longrightarrow> caller_run subs body opts (pause s)"
| run_resume: "caller_run subs body opts s \<Longrightarrow>
               caller_run subs body opts (resume_with subs body s)"
| run_settle: "caller_run subs body opts s \<Longrightarrow> caller_run subs body opts (settle k s)"
| run_microtask: "caller_run subs body opts s \<Longrightarrow>
                  caller_run subs body opts (microtask_with subs body s)"

text \<open>
  The jobs of a chain: those that can still start the next task are the head of the chain
  (\<open>c\<close> is \<open>continueWhenError\<close>); \<open>unsettled_task\<close> is the task whose status a job finds
  \<open>STATUS_PEDDING\<close>.
\<close>

fun unsettled_task :: "job \<Rightarrow> ref option" where
  "unsettled_task (ThenJob r p b) = Some r"
| "unsettled_task (CatchJob r p b) = (if b then None else Some r)"
| "unsettled_task j = None"

fun pause_job :: "job \<Rightarrow> bool" where
  "pause_job (AllElemJob a) = True"
| "pause_job PauseFinallyJob = True"
| "pause_job j = False"

definition unsettled :: "state \<Rightarrow> ref list" where
  "unsettled s = map fst (pending s) @ List.map_filter unsettled_task (jobs s)"

fun chain_job :: "job \<Rightarrow> bool" where
  "chain_job (ThenJob r p b) = True"
| "chain_job (CatchJob r p b) = True"
| "chain_job (FinallyJob r p) = True"
| "chain_job j = False"

fun job_pid :: "job \<Rightarrow> pid option" where
  "job_pid (ThenJob r p b) = Some p"
| "job_pid (CatchJob r p b) = Some p"
| "job_pid (FinallyJob r p) = Some p"
| "job_pid (ResolveThenableJob p) = Some p"
| "job_pid (FulfilJob p) = Some p"
| "job_pid j = None"

fun head_pid :: "bool \<Rightarrow> job \<Rightarrow> (ref \<times> pid) option" where
  "head_pid c (ThenJob r p b) = Some (r, p)"
| "head_pid c (CatchJob r p b) = (if \<not> b \<or> c then Some (r, p) else None)"
| "head_pid c (FinallyJob r p) = (if c then Some (r, p) else None)"
| "head_pid c j = None"

fun elem_job :: "job \<Rightarrow> bool" where
  "elem_job (AllElemJob a) = True"
| "elem_job j = False"

definition head_list :: "state \<Rightarrow> (ref \<times> pid) list" where
  "head_list s =
     map (\<lambda>(r, p, b). (r, p)) (pending s) @
     List.map_filter (head_pid (continueWhenError (options s))) (jobs s)"

definition pause_count :: "state \<Rightarrow> nat" where
  "pause_count s = length (reactions s) + length (filter elem_job (filter pause_job (jobs s)))"

definition flight_inv :: "state \<Rightarrow> bool" where
  "flight_inv s =
     (length (head_list s) \<le> 1 \<and>
      (\<forall>r. task_status (store s r) = STATUS_PEDDING \<longrightarrow> r \<in> set (unsettled s)) \<and>
      (\<not> isRunning s \<and> \<not> isBeforePause s \<longrightarrow> head_list s = []))"

definition head_ok :: "state \<Rightarrow> ref \<Rightarrow> pid \<Rightarrow> bool" where
  "head_ok s r p =
     (last (excuteList s) = r \<and> excutePromise (store s r) = Some p \<and>
      p \<notin> set (fulfilled s) \<and> r < next_ref s \<and>
      (\<forall>j \<in> set (jobs s). job_pid j = Some p \<longrightarrow>
            head_pid (continueWhenError (options s)) j \<noteq> None) \<and>
      (isBeforePause s \<longrightarrow> (p, next_aid s - 1) \<in> set (reactions s)))"

definition pids_ok :: "state \<Rightarrow> bool" where
  "pids_ok s =
     ((\<forall>j \<in> set (jobs s). \<forall>p. job_pid j = Some p \<longrightarrow> p < next_pid s) \<and>
      (\<forall>(r, p, b) \<in> set (pending s). p < next_pid s) \<and>
      (\<forall>p \<in> set (fulfilled s). p < next_pid s) \<and>
      (\<forall>r \<in> set (waitList s). r < next_ref s))"

definition chain_inv :: "state \<Rightarrow> bool" where
  "chain_inv s =
     (length (excuteList s) = length (pending s) + length (filter chain_job (jobs s)) \<and>
      (\<forall>(r, p) \<in> set (head_list s). head_ok s r p) \<and>
      pids_ok s)"

definition pause_inv :: "state \<Rightarrow> bool" where
  "pause_inv s =
     ((\<not> isBeforePause s \<longrightarrow> reactions s = [] \<and> filter pause_job (jobs s) = []) \<and>
      (isBeforePause s \<longrightarrow>
         (\<forall>(q, a) \<in> set (reactions s). a = next_aid s - 1) \<and>
         (\<forall>j \<in> set (filter pause_job (jobs s)).
             j = PauseFinallyJob \<or> j = AllElemJob (next_aid s - 1)) \<and>
         (if PauseFinallyJob \<in> set (filter pause_job (jobs s))
          then reactions s = [] \<and> filter pause_job (jobs s) = [PauseFinallyJob]
          else 0 < pause_count s \<and> remaining s (next_aid s - 1) = pause_count s)))"

definition sequential :: "state \<Rightarrow> bool" where
  "sequential s = (flight_inv s \<and> chain_inv s \<and> pause_inv s)"

section \<open>Basic facts\<close>

lemmas engine_defs = microtask_def enqueue_def emit_def set_task_status_def next_task_def
  isBeforePause_def isRunning_def call_excute_def settle_def pause_def all_element_def Let_def

lemma started_append: "started (xs @ ys) = started xs @ started ys"
  by (induction xs rule: started.induct) simp_all

lemma find_None_all: "(find P xs = None) = (\<forall>x\<in>set xs. \<not> P x)"
  by (induction xs) auto

lemma find_Some_D: "find P xs = Some x \<Longrightarrow> x \<in> set xs \<and> P x"
  by (induction xs) (auto split: if_splits)

lemma findTaskById_None: "\<not> isExist i s \<Longrightarrow> findTaskById i s = None"
  by (auto simp: isExist_def findTaskById_def split: option.splits)

lemma findTaskById_Some:
  "isExist i s \<Longrightarrow>
     \<exists>t. findTaskById i s = Some t \<and> t \<in> set (tracked s) \<and> task_id (store s t) = i"
  by (auto simp: isExist_def findTaskById_def tracked_def split: option.splits dest: find_Some_D)

lemma findTaskById_fresh:
  assumes "i \<notin> (\<lambda>r. task_id (store s r)) ` set (tracked s)"
  shows "findTaskById i s = None"
proof -
  have "find (\<lambda>r. task_id (store s r) = i) (waitList s) = None"
    "find (\<lambda>r. task_id (store s r) = i) (excuteList s) = None"
    "find (\<lambda>r. task_id (store s r) = i) (finishList s) = None"
    using assms by (auto simp: find_None_all tracked_def)
  then show ?thesis by (simp add: findTaskById_def)
qed

text \<open>The four ways \<open>next()\<close> can go, each with the state it leaves.\<close>

lemma next_task_cases:
  "(isBeforePause s \<and> next_task s = s) \<or>
   (\<not> isBeforePause s \<and> waitList s = [] \<and>
      next_task s = s\<lparr>status := STATUS_QUEUE_FINISH,
                       trace := trace s @ [EVENT_QUEUE_FINISH [] (finishList s)]\<rparr>) \<or>
   (\<exists>r w b. \<not> isBeforePause s \<and> waitList s = r # w \<and> excute (store s r) = Instant b \<and>
      next_task s =
        s\<lparr>waitList := w, excuteList := excuteList s @ [r],
          trace := trace s @ [EVENT_TASK_START r (task_status (store s r)) w (finishList s)],
          store := (store s)(r := (store s r)\<lparr>task_status := STATUS_PEDDING,
                                              excutePromise := Some (next_pid s)\<rparr>),
          next_pid := Suc (next_pid s),
          jobs := jobs s @ [ThenJob r (next_pid s) b]\<rparr>) \<or>
   (\<exists>r w b. \<not> isBeforePause s \<and> waitList s = r # w \<and> excute (store s r) = Later b \<and>
      next_task s =
        s\<lparr>waitList := w, excuteList := excuteList s @ [r],
          trace := trace s @ [EVENT_TASK_START r (task_status (store s r)) w (finishList s)],
          store := (store s)(r := (store s r)\<lparr>task_status := STATUS_PEDDING,
                                              excutePromise := Some (next_pid s)\<rparr>),
          next_pid := Suc (next_pid s),
          pending := pending s @ [(r, next_pid s, b)]\<rparr>)"
  by (cases "waitList s"; cases "excute (store s (hd (waitList s)))")
     (auto simp: engine_defs)

lemma options_next_task: "options (next_task s) = options s"
  using next_task_cases[of s] by auto

lemma next_task_keeps:
  "next_ref (next_task s) = next_ref s"
  "set (tracked (next_task s)) = set (tracked s)"
  "task_id (store (next_task s) x) = task_id (store s x)"
  "set (started (trace (next_task s))) \<subseteq> set (started (trace s)) \<union> set (waitList s)"
  using next_task_cases[of s]
  by (auto simp: tracked_def started_append)


section \<open>retry and retryAll\<close>

lemma retry_running:
  "isRunning s \<Longrightarrow>
     retry r s = s\<lparr>finishList := remove_first (\<lambda>x. task_id (store s x) = task_id (store s r))
                                    (finishList s),
                   waitList := waitList s @ [r], trace := trace s @ [CONSOLE_WARN]\<rparr>"
  by (simp add: retry_def exec_def removeFromFinishList_def emit_def Let_def isRunning_def)

lemma fold_retry_running:
  "isRunning s \<Longrightarrow>
     (fold retry fs s)\<lparr>finishList := X\<rparr> =
       s\<lparr>waitList := waitList s @ fs, trace := trace s @ replicate (length fs) CONSOLE_WARN,
         finishList := X\<rparr>"
proof (induction fs arbitrary: s)
  case Nil
  show ?case by simp
next
  case (Cons f fs)
  let ?s1 = "retry f s"
  have r: "isRunning ?s1" using Cons.prems by (simp add: retry_running isRunning_def)
  have "(fold retry (f # fs) s)\<lparr>finishList := X\<rparr> = (fold retry fs ?s1)\<lparr>finishList := X\<rparr>"
    by simp
  also have "\<dots> = ?s1\<lparr>waitList := waitList ?s1 @ fs,
                        trace := trace ?s1 @ replicate (length fs) CONSOLE_WARN,
                        finishList := X\<rparr>"
    by (rule Cons.IH[OF r])
  also have "\<dots> = s\<lparr>waitList := waitList s @ f # fs,
                      trace := trace s @ replicate (length (f # fs)) CONSOLE_WARN,
                      finishList := X\<rparr>"
    using Cons.prems by (simp add: retry_running)
  finally show ?case .
qed

lemma retry_not_running:
  assumes "\<not> isRunning s"
  shows "isRunning (retry r s) \<and>
         waitList (retry r s) = tl (waitList s @ [r]) \<and>
         excuteList (retry r s) = excuteList s @ [hd (waitList s @ [r])] \<and>
         task_status (store (retry r s) (hd (waitList s @ [r]))) = STATUS_PEDDING \<and>
         (\<forall>x. x \<noteq> hd (waitList s @ [r]) \<longrightarrow> store (retry r s) x = store s x)"
  using assms
  by (cases "waitList s")
     (auto simp: retry_def exec_def removeFromFinishList_def engine_defs
           split: excute_fn.splits)

lemma retry_lists:
  "finishList (retry r s) =
     remove_first (\<lambda>x. task_id (store s x) = task_id (store s r)) (finishList s) \<and>
   waitList (retry r s) = (if isRunning s then waitList s @ [r] else tl (waitList s @ [r])) \<and>
   excuteList (retry r s) =
     (if isRunning s then excuteList s else excuteList s @ [hd (waitList s @ [r])])"
  by (cases "waitList s")
     (auto simp: retry_def exec_def removeFromFinishList_def engine_defs
           split: excute_fn.splits)

text \<open>
  Claim C8, as the code has it: \<open>retryAll()\<close> leaves the finished sequence holding exactly
  its \<open>STATUS_SUCCESS\<close> tasks and appends its \<open>STATUS_FAILURE\<close> tasks, in their order, to
  the tail of the waiting sequence.  When the queue is running, nothing else changes but
  the console warnings of \<open>exec()\<close>.  When it is not running, the \<open>exec()\<close> of the first
  \<open>retry\<close> sets it running and starts the head of the waiting sequence, which moves to
  the in-flight sequence with status \<open>STATUS_PEDDING\<close>; every other task object is
  unchanged.
\<close>

theorem retryAll_requeues:
  "(let fs = filter (\<lambda>r. task_status (store s r) = STATUS_FAILURE) (finishList s);
        ss = filter (\<lambda>r. task_status (store s r) = STATUS_SUCCESS) (finishList s);
        s' = retryAll s
    in finishList s' = ss \<and>
       (isRunning s \<longrightarrow>
          waitList s' = waitList s @ fs \<and> store s' = store s \<and>
          excuteList s' = excuteList s \<and> status s' = status s) \<and>
       (\<not> isRunning s \<and> fs \<noteq> [] \<longrightarrow>
          isRunning s' \<and> waitList s' = tl (waitList s @ fs) \<and>
          excuteList s' = excuteList s @ [hd (waitList s @ fs)] \<and>
          task_status (store s' (hd (waitList s @ fs))) = STATUS_PEDDING \<and>
          (\<forall>x. x \<noteq> hd (waitList s @ fs) \<longrightarrow> store s' x = store s x)))"
proof -
  define fs where "fs = filter (\<lambda>r. task_status (store s r) = STATUS_FAILURE) (finishList s)"
  define ss where "ss = filter (\<lambda>r. task_status (store s r) = STATUS_SUCCESS) (finishList s)"
  have ra: "retryAll s = (fold retry fs s)\<lparr>finishList := ss\<rparr>"
    by (simp add: retryAll_def fs_def ss_def Let_def)
  have a: "finishList (retryAll s) = ss" by (simp add: ra)
  have b: "waitList (retryAll s) = waitList s @ fs \<and> store (retryAll s) = store s \<and>
           excuteList (retryAll s) = excuteList s \<and> status (retryAll s) = status s"
    if "isRunning s"
    by (simp add: ra fold_retry_running[OF that])
  have c: "isRunning (retryAll s) \<and> waitList (retryAll s) = tl (waitList s @ fs) \<and>
          excuteList (retryAll s) = excuteList s @ [hd (waitList s @ fs)] \<and>
          task_status (store (retryAll s) (hd (waitList s @ fs))) = STATUS_PEDDING \<and>
          (\<forall>x. x \<noteq> hd (waitList s @ fs) \<longrightarrow> store (retryAll s) x = store s x)"
    if nr: "\<not> isRunning s" and ne: "fs \<noteq> []"
  proof -
    from ne obtain f fs' where f: "fs = f # fs'" by (cases fs) auto
    note r1 = retry_not_running[OF nr, of f]
    from r1 have run: "isRunning (retry f s)" by blast
    have hd_eq: "hd (waitList s @ fs) = hd (waitList s @ [f])"
      by (cases "waitList s") (simp_all add: f)
    have tl_eq: "tl (waitList s @ fs) = tl (waitList s @ [f]) @ fs'"
      by (cases "waitList s") (simp_all add: f)
    have "retryAll s = (fold retry fs' (retry f s))\<lparr>finishList := ss\<rparr>"
      by (simp add: ra f)
    also have "\<dots> = (retry f s)\<lparr>waitList := waitList (retry f s) @ fs',
         trace := trace (retry f s) @ replicate (length fs') CONSOLE_WARN, finishList := ss\<rparr>"
      by (rule fold_retry_running[OF run])
    finally have eq: "retryAll s = (retry f s)\<lparr>waitList := waitList (retry f s) @ fs',
         trace := trace (retry f s) @ replicate (length fs') CONSOLE_WARN, finishList := ss\<rparr>" .
    show ?thesis
      using r1 by (simp add: eq hd_eq tl_eq isRunning_def)
  qed
  show ?thesis
    unfolding Let_def fs_def[symmetric] ss_def[symmetric]
    using a b c by blast
qed

text \<open>
  On the stalled queue (running, \<open>A\<close> failed, \<open>C\<close> waiting) the failed task is appended with
  its status still \<open>STATUS_FAILURE\<close>; on the finished queue the failed task \<open>B\<close> is started.
\<close>

theorem retryAll_requeues_witness:
  "isRunning stalled_example \<and>
   waitList (retryAll stalled_example) = [1, 0] \<and>
   finishList (retryAll stalled_example) = [] \<and>
   task_status (store (retryAll stalled_example) 0) = STATUS_FAILURE \<and>
   \<not> isRunning finished_ab \<and>
   filter (\<lambda>r. task_status (store finished_ab r) = STATUS_FAILURE) (finishList finished_ab) \<noteq> [] \<and>
   finishList (retryAll finished_ab) = [0] \<and>
   isRunning (retryAll finished_ab) \<and>
   excuteList (retryAll finished_ab) = [1]"
proof -
  have a: "isRunning stalled_example" by code_simp
  have b: "waitList stalled_example = [1]" "finishList stalled_example = [0]"
    "task_status (store stalled_example 0) = STATUS_FAILURE"
    by code_simp+
  have c: "\<not> isRunning finished_ab" by code_simp
  have d: "waitList finished_ab = []" "finishList finished_ab = [0, 1]"
    "task_status (store finished_ab 0) = STATUS_SUCCESS"
    "task_status (store finished_ab 1) = STATUS_FAILURE" "excuteList finished_ab = []"
    by code_simp+
  show ?thesis
    using retryAll_requeues[of stalled_example] retryAll_requeues[of finished_ab] a b c d
    by (simp add: Let_def)
qed

text \<open>
  Claim C8 as stated fails on the finished queue of the continue-on-failure run: after
  \<open>retryAll()\<close> the failed task \<open>B\<close> is not in the waiting sequence and its status is not
  \<open>STATUS_WAITING\<close>; it is in flight.
\<close>

theorem retryAll_counterexample:
  "finishList finished_ab = [0, 1] \<and>
   task_status (store finished_ab 1) = STATUS_FAILURE \<and>
   waitList (retryAll finished_ab) = [] \<and>
   excuteList (retryAll finished_ab) = [1] \<and>
   task_status (store (retryAll finished_ab) 1) = STATUS_PEDDING"
  by code_simp

section \<open>push\<close>

text \<open>
  Claim C3: when the id is tracked in one of the three lists, \<open>push\<close> invokes the failure
  callback (when one is given) with the error and the tracked task, answers with a rejected
  acknowledgement and changes nothing else: the lists, every task and the queue status
  are the ones before.  When the id is not tracked, \<open>push\<close> appends a new task with status
  \<open>STATUS_WAITING\<close> to the tail of the waiting list, calls \<open>exec()\<close> when \<open>immediate\<close> is
  set, and answers with a resolved acknowledgement.
\<close>

theorem push_dedup:
  "(isExist i s \<longrightarrow>
      (\<exists>t. t \<in> set (tracked s) \<and> task_id (store s t) = i \<and>
           push i f True s = (s\<lparr>trace := trace s @ [CALL_pushFailureFn TaskIsExist t]\<rparr>,
                              Rejected TaskIsExist) \<and>
           push i f False s = (s, Rejected TaskIsExist))) \<and>
   (\<not> isExist i s \<longrightarrow>
      (let s' = s\<lparr>store := (store s)(next_ref s :=
                        \<lparr>task_id = i, task_status = STATUS_WAITING, excute = f,
                         excutePromise = None\<rparr>),
                   next_ref := Suc (next_ref s),
                   waitList := waitList s @ [next_ref s]\<rparr>
       in push i f cb s = ((if immediate (options s) then exec s' else s'), Resolved)))"
proof (intro conjI impI)
  assume "isExist i s"
  then obtain t where t: "findTaskById i s = Some t" "t \<in> set (tracked s)"
    "task_id (store s t) = i"
    using findTaskById_Some by blast
  then show "\<exists>t. t \<in> set (tracked s) \<and> task_id (store s t) = i \<and>
           push i f True s = (s\<lparr>trace := trace s @ [CALL_pushFailureFn TaskIsExist t]\<rparr>,
                              Rejected TaskIsExist) \<and>
           push i f False s = (s, Rejected TaskIsExist)"
    by (intro exI[of _ t]) (simp add: push_def emit_def)
next
  assume "\<not> isExist i s"
  then have "findTaskById i s = None" by (rule findTaskById_None)
  then show "let s' = s\<lparr>store := (store s)(next_ref s :=
                        \<lparr>task_id = i, task_status = STATUS_WAITING, excute = f,
                         excutePromise = None\<rparr>),
                   next_ref := Suc (next_ref s),
                   waitList := waitList s @ [next_ref s]\<rparr>
       in push i f cb s = ((if immediate (options s) then exec s' else s'), Resolved)"
    by (simp add: push_def Let_def)
qed

text \<open>
  With \<open>a\<close> in flight: a second \<open>a\<close> is rejected and the queue is as before, a \<open>b\<close> is
  appended to the waiting list.
\<close>

theorem push_dedup_witness:
  "isExist ''a'' one_started \<and>
   snd (push ''a'' (Instant True) True one_started) = Rejected TaskIsExist \<and>
   fst (push ''a'' (Instant True) False one_started) = one_started \<and>
   trace (fst (push ''a'' (Instant True) True one_started)) =
     trace one_started @ [CALL_pushFailureFn TaskIsExist 0] \<and>
   \<not> isExist ''b'' one_started \<and>
   snd (push ''b'' (Instant True) False one_started) = Resolved \<and>
   waitList (fst (push ''b'' (Instant True) False one_started)) = [1] \<and>
   task_status (store (fst (push ''b'' (Instant True) False one_started)) 1) = STATUS_WAITING"
proof -
  have a: "isExist ''a'' one_started" by code_simp
  have b: "\<not> isExist ''b'' one_started" by code_simp
  have c: "tracked one_started = [0]" "waitList one_started = []" "next_ref one_started = 1"
    "\<not> immediate (options one_started)"
    by code_simp+
  from push_dedup[of "''a''" one_started "Instant True" False] a c(1)
  have d: "push ''a'' (Instant True) True one_started =
            (one_started\<lparr>trace := trace one_started @ [CALL_pushFailureFn TaskIsExist 0]\<rparr>,
             Rejected TaskIsExist)"
    "push ''a'' (Instant True) False one_started = (one_started, Rejected TaskIsExist)"
    by auto
  from push_dedup[of "''b''" one_started "Instant True" False] b c
  have e: "push ''b'' (Instant True) False one_started =
      (one_started\<lparr>store := (store one_started)(1 :=
                        \<lparr>task_id = ''b'', task_status = STATUS_WAITING, excute = Instant True,
                         excutePromise = None\<rparr>),
                   next_ref := Suc 1, waitList := [1]\<rparr>, Resolved)"
    by (simp add: Let_def)
  show ?thesis using a b d e by simp
qed

section \<open>reset\<close>

lemma fold_set_status:
  "fold (\<lambda>r. set_task_status r st) rs s =
     s\<lparr>store := (\<lambda>x. if x \<in> set rs then (store s x)\<lparr>task_status := st\<rparr> else store s x)\<rparr>"
proof (induction rs arbitrary: s)
  case Nil
  show ?case by simp
next
  case (Cons a rs)
  have "fold (\<lambda>r. set_task_status r st) (a # rs) s =
        fold (\<lambda>r. set_task_status r st) rs (set_task_status a st s)"
    by simp
  also have "\<dots> = (set_task_status a st s)\<lparr>store := (\<lambda>x. if x \<in> set rs
        then (store (set_task_status a st s) x)\<lparr>task_status := st\<rparr>
        else store (set_task_status a st s) x)\<rparr>"
    by (rule Cons.IH)
  also have "\<dots> = s\<lparr>store := (\<lambda>x. if x \<in> set (a # rs) then (store s x)\<lparr>task_status := st\<rparr>
        else store s x)\<rparr>"
    by (auto simp: set_task_status_def fun_eq_iff cong: if_cong)
  finally show ?case .
qed

text \<open>
  Claim C7: on a queue that is not running, \<open>reset()\<close> appends the finished sequence, in
  order, to the tail of the waiting sequence, empties the finished sequence and sets the
  status of every task of the new waiting sequence to \<open>STATUS_WAITING\<close>; the queue status
  and everything else stay.  On a running queue it invokes the failure callback (when one
  is given), answers with a rejected acknowledgement and changes nothing else.
\<close>

theorem reset_merge:
  "(\<not> isRunning s \<longrightarrow>
      reset cb s =
        (s\<lparr>waitList := waitList s @ finishList s, finishList := [],
           store := (\<lambda>r. if r \<in> set (waitList s @ finishList s)
                          then (store s r)\<lparr>task_status := STATUS_WAITING\<rparr> else store s r)\<rparr>,
         None)) \<and>
   (isRunning s \<longrightarrow>
      reset True s = (s\<lparr>trace := trace s @ [CALL_resetFailFn AsyncQueueIsRunning]\<rparr>,
                      Some (Rejected AsyncQueueIsRunning)) \<and>
      reset False s = (s, Some (Rejected AsyncQueueIsRunning)))"
  by (simp add: reset_def Let_def fold_set_status emit_def cong: if_cong)

text \<open>
  The example of the claim, with finished \<open>[A, B]\<close> (references 0 and 1) and waiting
  \<open>[C]\<close> (reference 2); and a running queue, which is left alone.
\<close>

theorem reset_merge_witness:
  "\<not> isRunning reset_example \<and>
   waitList reset_example = [2] \<and> finishList reset_example = [0, 1] \<and>
   task_status (store reset_example 0) = STATUS_SUCCESS \<and>
   task_status (store reset_example 1) = STATUS_FAILURE \<and>
   waitList (fst (reset False reset_example)) = [2, 0, 1] \<and>
   finishList (fst (reset False reset_example)) = [] \<and>
   task_status (store (fst (reset False reset_example)) 0) = STATUS_WAITING \<and>
   task_status (store (fst (reset False reset_example)) 1) = STATUS_WAITING \<and>
   task_status (store (fst (reset False reset_example)) 2) = STATUS_WAITING \<and>
   status (fst (reset False reset_example)) = status reset_example \<and>
   isRunning one_started \<and>
   reset False one_started = (one_started, Some (Rejected AsyncQueueIsRunning))"
proof -
  have a: "\<not> isRunning reset_example" by code_simp
  have b: "waitList reset_example = [2]" "finishList reset_example = [0, 1]"
    "task_status (store reset_example 0) = STATUS_SUCCESS"
    "task_status (store reset_example 1) = STATUS_FAILURE"
    by code_simp+
  have c: "isRunning one_started" by code_simp
  show ?thesis
    using reset_merge[of reset_example False] reset_merge[of one_started] a b c
    by simp
qed

section \<open>next\<close>

text \<open>
  What \<open>next()\<close> does with the head of the waiting sequence, in the order of lines 142 to
  152: the task is appended to the in-flight sequence, \<open>EVENT_TASK_START\<close> is published
  while the task still has the status it had in the waiting sequence, then the status is
  set to \<open>STATUS_PEDDING\<close>, then \<open>excute\<close> is called and the promise of the chain is
  stored in the task.
\<close>

lemma next_task_started:
  "\<not> isBeforePause s \<and> waitList s = r # w \<longrightarrow>
     waitList (next_task s) = w \<and>
     excuteList (next_task s) = excuteList s @ [r] \<and>
     trace (next_task s) =
       trace s @ [EVENT_TASK_START r (task_status (store s r)) w (finishList s)] \<and>
     task_status (store (next_task s) r) = STATUS_PEDDING \<and>
     excutePromise (store (next_task s) r) = Some (next_pid s) \<and>
     (case excute (store s r) of
        Instant b \<Rightarrow>
          jobs (next_task s) = jobs s @ [ThenJob r (next_pid s) b] \<and>
          pending (next_task s) = pending s
      | Later b \<Rightarrow>
          jobs (next_task s) = jobs s \<and>
          pending (next_task s) = pending s @ [(r, next_pid s, b)])"
  by (auto simp: engine_defs split: excute_fn.splits)

text \<open>
  Claim C9 says that the task is marked \<open>STATUS_PEDDING\<close> before the start notification is
  published.  The code publishes first: a task \<open>a\<close> is pushed on a new queue and \<open>exec()\<close>
  is called; the start notification carries the task with status \<open>STATUS_WAITING\<close>, and
  the status is \<open>STATUS_PEDDING\<close> only when \<open>next()\<close> has returned.  Every other
  notification of the class is published after the status it reports has been assigned.
\<close>

theorem start_published_before_pending:
  "trace one_started = [EVENT_QUEUE_START [0] [], EVENT_TASK_START 0 STATUS_WAITING [] []] \<and>
   task_id (store one_started 0) = ''a'' \<and>
   task_status (store one_started 0) = STATUS_PEDDING"
  by code_simp

section \<open>retry breaks the identity invariant\<close>

lemma remove_first_absent: "\<forall>x \<in> set xs. \<not> P x \<Longrightarrow> remove_first P xs = xs"
  by (induction xs) simp_all

lemma remove_first_present:
  "\<forall>x \<in> set xs. \<not> P x \<Longrightarrow> P y \<Longrightarrow> remove_first P (xs @ y # ys) = xs @ ys"
  by (induction xs) simp_all

text \<open>
  Claim C10: \<open>retry(task)\<close> checks nothing.  When no entry of the finished sequence has
  the task's id, the finished sequence is left as it is; when one has, the first such
  entry is taken out and the entries before and after it stay, in their order.  In both
  cases the task object is appended to the tail of the waiting sequence and \<open>exec()\<close> is
  called (which, on a queue that is not running, starts the head of the waiting
  sequence).  Retrying the task in flight of \<open>one_started\<close> leaves the same object in the
  waiting and in the in-flight sequence, so that an id is tracked twice, where before
  every id was tracked once.
\<close>

theorem retry_breaks_identity:
  "((\<forall>x \<in> set (finishList s). task_id (store s x) \<noteq> task_id (store s r)) \<longrightarrow>
      finishList (retry r s) = finishList s) \<and>
   (finishList s = xs @ y # ys \<and>
    (\<forall>x \<in> set xs. task_id (store s x) \<noteq> task_id (store s r)) \<and>
    task_id (store s y) = task_id (store s r) \<longrightarrow>
      finishList (retry r s) = xs @ ys) \<and>
   waitList (retry r s) = (if isRunning s then waitList s @ [r] else tl (waitList s @ [r])) \<and>
   excuteList (retry r s) =
     (if isRunning s then excuteList s else excuteList s @ [hd (waitList s @ [r])]) \<and>
   ids_distinct one_started \<and>
   waitList (retry 0 one_started) = [0] \<and> excuteList (retry 0 one_started) = [0] \<and>
   \<not> ids_distinct (retry 0 one_started)"
proof -
  let ?P = "\<lambda>x. task_id (store s x) = task_id (store s r)"
  have f: "finishList (retry r s) = remove_first ?P (finishList s)"
    using retry_lists[of r s] by blast
  have a: "finishList (retry r s) = finishList s"
    if "\<forall>x \<in> set (finishList s). task_id (store s x) \<noteq> task_id (store s r)"
    using that by (simp add: f remove_first_absent)
  have b: "finishList (retry r s) = xs @ ys"
    if "finishList s = xs @ y # ys \<and>
        (\<forall>x \<in> set xs. task_id (store s x) \<noteq> task_id (store s r)) \<and>
        task_id (store s y) = task_id (store s r)"
    using that remove_first_present[of xs ?P y ys] by (simp add: f)
  have c: "ids_distinct one_started \<and>
   waitList (retry 0 one_started) = [0] \<and> excuteList (retry 0 one_started) = [0] \<and>
   \<not> ids_distinct (retry 0 one_started)"
    by code_simp
  show ?thesis using a b c retry_lists[of r s] by blast
qed

text \<open>
  Three calls.  In \<open>finished_ab\<close> the finished sequence is \<open>[A, B]\<close> and the queue has
  finished: retrying \<open>B\<close> takes it out of the finished sequence, \<open>A\<close> stays, and \<open>B\<close> is
  started again.  In \<open>stalled_example\<close> the failed \<open>A\<close> is the finished sequence, \<open>C\<close>
  waits and the queue is still running: retrying \<open>A\<close> moves it behind \<open>C\<close>; retrying the
  waiting \<open>C\<close> leaves the finished sequence as it is and puts \<open>C\<close> in the waiting sequence
  a second time.
\<close>

theorem retry_breaks_identity_witness:
  "finishList finished_ab = [0, 1] \<and> \<not> isRunning finished_ab \<and>
   task_id (store finished_ab 0) = ''A'' \<and> task_id (store finished_ab 1) = ''B'' \<and>
   finishList (retry 1 finished_ab) = [0] \<and> waitList (retry 1 finished_ab) = [] \<and>
   excuteList (retry 1 finished_ab) = [1] \<and>
   finishList stalled_example = [0] \<and> waitList stalled_example = [1] \<and>
   isRunning stalled_example \<and>
   task_id (store stalled_example 0) = ''A'' \<and> task_id (store stalled_example 1) = ''C'' \<and>
   finishList (retry 0 stalled_example) = [] \<and> waitList (retry 0 stalled_example) = [1, 0] \<and>
   ids_distinct (retry 0 stalled_example) \<and>
   finishList (retry 1 stalled_example) = [0] \<and> waitList (retry 1 stalled_example) = [1, 1] \<and>
   \<not> ids_distinct (retry 1 stalled_example)"
proof -
  have a: "finishList finished_ab = [0] @ 1 # []" "\<not> isRunning finished_ab"
    "task_id (store finished_ab 0) = ''A''" "task_id (store finished_ab 1) = ''B''"
    "waitList finished_ab = []" "excuteList finished_ab = []"
    by code_simp+
  have b: "finishList stalled_example = [] @ 0 # []" "waitList stalled_example = [1]"
    "isRunning stalled_example"
    "task_id (store stalled_example 0) = ''A''" "task_id (store stalled_example 1) = ''C''"
    by code_simp+
  have c: "ids_distinct (retry 0 stalled_example)" "\<not> ids_distinct (retry 1 stalled_example)"
    by code_simp+
  have "finishList (retry 1 finished_ab) = [0] \<and> waitList (retry 1 finished_ab) = [] \<and>
        excuteList (retry 1 finished_ab) = [1]"
    using retry_breaks_identity[of finished_ab 1 "[0]" 1 "[]"] a by simp
  moreover have "finishList (retry 0 stalled_example) = [] \<and>
                 waitList (retry 0 stalled_example) = [1, 0]"
    using retry_breaks_identity[of stalled_example 0 "[]" 0 "[]"] b by simp
  moreover have "finishList (retry 1 stalled_example) = [0] \<and>
                 waitList (retry 1 stalled_example) = [1, 1]"
    using retry_breaks_identity[of stalled_example 1] b by simp
  ultimately show ?thesis using a b c by simp
qed


section \<open>Halt on failure, continue on failure\<close>

text \<open>
  Claim C4: with \<open>continueWhenError = false\<close>, tasks \<open>A\<close> (succeeds), \<open>B\<close> (fails) and \<open>C\<close>
  (succeeds) are pushed and \<open>exec()\<close> is called.  Whatever the other two options are and
  whether each task settles at once or later, the event loop comes to rest with start
  notifications for \<open>A\<close> and \<open>B\<close> only, \<open>A\<close> succeeded, \<open>B\<close> failed, \<open>C\<close> still in the
  waiting list with status \<open>STATUS_WAITING\<close>, nothing in flight, no job queued and no
  promise pending: nothing more happens unless a caller acts.
\<close>

theorem halt_on_failure:
  "(case event_loop 60 (abc_queue \<lparr>immediate = imm, removeAfterFinish = raf,
                                    continueWhenError = False\<rparr> la lb lc) of
      None \<Rightarrow> False
    | Some s' \<Rightarrow>
        started (trace s') = [0, 1] \<and>
        map (\<lambda>r. task_id (store s' r)) [0, 1, 2] = [''A'', ''B'', ''C''] \<and>
        map (\<lambda>r. task_status (store s' r)) [0, 1, 2] =
          [STATUS_SUCCESS, STATUS_FAILURE, STATUS_WAITING] \<and>
        waitList s' = [2] \<and> excuteList s' = [] \<and>
        finishList s' = (if raf then [] else [0, 1]) \<and>
        status s' = STATUS_QUEUE_RUNNING \<and>
        jobs s' = [] \<and> pending s' = [])"
  by (cases imm rule: bool.exhaust; cases raf rule: bool.exhaust; cases la rule: bool.exhaust;
      cases lb rule: bool.exhaust; cases lc rule: bool.exhaust; hypsubst; code_simp)

text \<open>
  Claim C5: the same tasks with \<open>continueWhenError = true\<close>.  All three are started, in
  order; \<open>A\<close> and \<open>C\<close> end with \<open>STATUS_SUCCESS\<close> and \<open>B\<close> with \<open>STATUS_FAILURE\<close>;
  \<open>EVENT_QUEUE_FINISH\<close> is published once, and it is the last notification, right after
  the success notification of \<open>C\<close>.
\<close>

theorem continue_on_failure:
  "(case event_loop 60 (abc_queue \<lparr>immediate = imm, removeAfterFinish = raf,
                                    continueWhenError = True\<rparr> la lb lc) of
      None \<Rightarrow> False
    | Some s' \<Rightarrow>
        started (trace s') = [0, 1, 2] \<and>
        map (\<lambda>r. task_id (store s' r)) [0, 1, 2] = [''A'', ''B'', ''C''] \<and>
        map (\<lambda>r. task_status (store s' r)) [0, 1, 2] =
          [STATUS_SUCCESS, STATUS_FAILURE, STATUS_SUCCESS] \<and>
        queue_finishes (trace s') = 1 \<and>
        drop (length (trace s') - 2) (trace s') =
          [EVENT_TASK_SUCCESS 2 STATUS_SUCCESS [] (if raf then [] else [0, 1]),
           EVENT_QUEUE_FINISH [] (if raf then [] else [0, 1, 2])] \<and>
        waitList s' = [] \<and> excuteList s' = [] \<and>
        status s' = STATUS_QUEUE_FINISH \<and>
        jobs s' = [] \<and> pending s' = [])"
  by (cases imm rule: bool.exhaust; cases raf rule: bool.exhaust; cases la rule: bool.exhaust;
      cases lb rule: bool.exhaust; cases lc rule: bool.exhaust; hypsubst; code_simp)

section \<open>pause\<close>

text \<open>
  Claim C6 says that a paused queue waits for the task in flight and starts no task
  until \<open>exec()\<close> or \<open>resume()\<close>; so do the comment of line 248 and the description of
  \<open>pause()\<close> in the documentation.  \<open>pause()\<close> waits on \<open>task.excutePromise\<close> of the
  tasks in \<open>excuteList\<close>, and \<open>next()\<close> assigns \<open>task.excutePromise\<close> last, after it has
  published \<open>EVENT_TASK_START\<close> and called \<open>excute\<close>.  A \<open>pause()\<close> called from a
  subscriber of \<open>EVENT_TASK_START\<close>, or from the body of the task, finds the task in
  \<open>excuteList\<close> with no promise and waits for nothing.

  Tasks \<open>a\<close> and \<open>b\<close> are submitted, \<open>exec()\<close> is called, and a subscriber of
  \<open>EVENT_TASK_START\<close> calls \<open>pause()\<close>.
  \<^item> When \<open>exec()\<close> returns (\<open>handler_pause_0\<close>) the status is \<open>STATUS_QUEUE_BEFORE_PAUSE\<close>,
    \<open>a\<close> is in flight and pending, and the reaction of \<open>Promise.all\<close> is already queued.
  \<^item> Two microtasks later (\<open>handler_pause_2\<close>) the status is \<open>STATUS_QUEUE_PAUSE\<close> and
    \<open>EVENT_QUEUE_PAUSE\<close> is published, while \<open>a\<close> is still pending.
  \<^item> When \<open>a\<close> settles (\<open>handler_pause_3\<close>), its \<open>then\<close> callback calls \<open>next()\<close>, which
    starts \<open>b\<close>: nobody called \<open>exec()\<close> or \<open>resume()\<close>, and the status is still
    \<open>STATUS_QUEUE_PAUSE\<close>.

  The same happens when the body of the task calls \<open>pause()\<close> (\<open>body_pause_0\<close>,
  \<open>body_pause_2\<close>, \<open>body_pause_3\<close>).  When \<open>pause()\<close> is called after \<open>exec()\<close> has
  returned (\<open>pause two_started\<close>), the wait is registered on the promise of \<open>a\<close> and
  nothing is queued; the status is \<open>STATUS_QUEUE_BEFORE_PAUSE\<close> until the seventh
  microtask after \<open>a\<close> settles, the eighth sets \<open>STATUS_QUEUE_PAUSE\<close>, and \<open>b\<close> is not
  started.
\<close>

theorem pause_inside_next:
  "status handler_pause_0 = STATUS_QUEUE_BEFORE_PAUSE \<and>
   excuteList handler_pause_0 = [0] \<and> waitList handler_pause_0 = [1] \<and>
   task_status (store handler_pause_0 0) = STATUS_PEDDING \<and>
   pending handler_pause_0 = [(0, 0, True)] \<and>
   reactions handler_pause_0 = [] \<and> jobs handler_pause_0 = [AllElemJob 0] \<and>
   status handler_pause_2 = STATUS_QUEUE_PAUSE \<and>
   task_status (store handler_pause_2 0) = STATUS_PEDDING \<and>
   pending handler_pause_2 = [(0, 0, True)] \<and>
   trace handler_pause_2 =
     [EVENT_QUEUE_START [0, 1] [], EVENT_TASK_START 0 STATUS_WAITING [1] [],
      EVENT_QUEUE_PAUSE [1] []] \<and>
   status handler_pause_3 = STATUS_QUEUE_PAUSE \<and>
   trace handler_pause_3 =
     [EVENT_QUEUE_START [0, 1] [], EVENT_TASK_START 0 STATUS_WAITING [1] [],
      EVENT_QUEUE_PAUSE [1] [], EVENT_TASK_SUCCESS 0 STATUS_SUCCESS [1] [],
      EVENT_TASK_START 1 STATUS_WAITING [] []] \<and>
   task_status (store handler_pause_3 1) = STATUS_PEDDING \<and>
   excuteList handler_pause_3 = [0, 1] \<and>
   status body_pause_0 = STATUS_QUEUE_BEFORE_PAUSE \<and>
   task_status (store body_pause_0 0) = STATUS_PEDDING \<and>
   reactions body_pause_0 = [] \<and> jobs body_pause_0 = [AllElemJob 0] \<and>
   status body_pause_2 = STATUS_QUEUE_PAUSE \<and>
   task_status (store body_pause_2 0) = STATUS_PEDDING \<and>
   pending body_pause_2 = [(0, 0, True)] \<and>
   status body_pause_3 = STATUS_QUEUE_PAUSE \<and>
   started (trace body_pause_3) = [0, 1] \<and>
   task_status (store body_pause_3 1) = STATUS_PEDDING \<and>
   status (pause two_started) = STATUS_QUEUE_BEFORE_PAUSE \<and>
   reactions (pause two_started) = [(0, 0)] \<and> jobs (pause two_started) = [] \<and>
   status (microtasks 7 (settle 0 (pause two_started))) = STATUS_QUEUE_BEFORE_PAUSE \<and>
   task_status (store (microtasks 7 (settle 0 (pause two_started))) 0) = STATUS_SUCCESS \<and>
   status (microtasks 8 (settle 0 (pause two_started))) = STATUS_QUEUE_PAUSE \<and>
   jobs (microtasks 8 (settle 0 (pause two_started))) = [] \<and>
   pending (microtasks 8 (settle 0 (pause two_started))) = [] \<and>
   trace (microtasks 8 (settle 0 (pause two_started))) =
     [EVENT_QUEUE_START [0, 1] [], EVENT_TASK_START 0 STATUS_WAITING [1] [],
      EVENT_TASK_SUCCESS 0 STATUS_SUCCESS [1] [], EVENT_QUEUE_PAUSE [1] [0]] \<and>
   task_status (store (microtasks 8 (settle 0 (pause two_started))) 1) = STATUS_WAITING"
  by code_simp


section \<open>Termination of the microtask loop\<close>

lemma work_next_task: "work (next_task s) \<le> work s"
  using next_task_cases[of s] by (auto simp: work_def)

lemma work_fields:
  "work (s\<lparr>trace := tr\<rparr>) = work s"
  "work (s\<lparr>store := st\<rparr>) = work s"
  "work (s\<lparr>finishList := fl\<rparr>) = work s"
  "work (s\<lparr>excuteList := el\<rparr>) = work s"
  "work (s\<lparr>status := qs\<rparr>) = work s"
  "work (s\<lparr>fulfilled := fu\<rparr>) = work s"
  "work (s\<lparr>remaining := re\<rparr>) = work s"
  "work (s\<lparr>jobs := js\<rparr>) + sum_list (map job_weight (jobs s)) =
     work s + sum_list (map job_weight js)"
  by (simp_all add: work_def)

lemma work_enqueue: "work (enqueue j s) = work s + job_weight j"
  by (simp add: work_def enqueue_def)

lemma work_run_job: "work (run_job j s) < work s + job_weight j"
proof (cases j)
  case (ThenJob r p b)
  have "work (next_task t) \<le> work s" if "work t = work s" for t
    using work_next_task[of t] that by simp
  then show ?thesis using ThenJob
    by (auto simp: work_enqueue Let_def emit_def set_task_status_def work_fields
          intro!: le_imp_less_Suc)
next
  case (CatchJob r p b)
  then show ?thesis
    by (auto simp: work_enqueue Let_def emit_def set_task_status_def work_fields)
next
  case (FinallyJob r p)
  have "work (next_task t) \<le> work s" if "work t = work s" for t
    using work_next_task[of t] that by simp
  then have "work (next_task (s\<lparr>finishList := fl\<rparr>)) \<le> work s" 
    "work (next_task s) \<le> work s" for fl
    by (simp_all add: work_fields)
  then show ?thesis using FinallyJob
    by (auto simp: work_enqueue Let_def work_fields intro!: le_imp_less_Suc)
next
  case (FulfilJob p)
  have "length (filter (\<lambda>(q, a). q = p) xs) + length (filter (\<lambda>(q, a). q \<noteq> p) xs) = length xs"
    for xs :: "(pid \<times> aid) list"
    by (induction xs) auto
  from this[of "reactions s"] show ?thesis using FulfilJob
    by (simp add: work_def Let_def comp_def case_prod_unfold sum_list_triv)
next
  case (AllElemJob a)
  then show ?thesis
    by (auto simp: work_enqueue Let_def work_fields)
qed (auto simp: work_enqueue Let_def emit_def work_fields)

lemma work_microtask: "jobs s \<noteq> [] \<Longrightarrow> work (microtask s) < work s"
proof -
  assume "jobs s \<noteq> []"
  then obtain j js where j: "jobs s = j # js" by (cases "jobs s") auto
  have "work (run_job j (s\<lparr>jobs := js\<rparr>)) < work (s\<lparr>jobs := js\<rparr>) + job_weight j"
    by (rule work_run_job)
  moreover have "work (s\<lparr>jobs := js\<rparr>) + job_weight j = work s"
    using j by (simp add: work_def)
  ultimately show ?thesis using j by (simp add: microtask_def)
qed

lemma drain_invariant:
  assumes step: "\<And>t. P t \<Longrightarrow> P (microtask t)"
  shows "P s \<Longrightarrow> work s \<le> n \<Longrightarrow> \<exists>s'. drain n s = Some s' \<and> P s' \<and> jobs s' = []"
proof (induction n arbitrary: s)
  case 0
  then have "jobs s = []" using work_microtask[of s] by auto
  then show ?case using 0 by simp
next
  case (Suc n)
  show ?case
  proof (cases "jobs s = []")
    case True
    then show ?thesis using Suc.prems by simp
  next
    case False
    have "work (microtask s) \<le> n" using work_microtask[OF False] Suc.prems by simp
    from Suc.IH[OF step[OF Suc.prems(1)] this] show ?thesis using False by simp
  qed
qed


section \<open>FIFO order of the start notifications\<close>

lemma start_order_next_task: "start_order (next_task s) = start_order s"
  using next_task_cases[of s]
  by (auto simp: start_order_def started_append)

lemma fifo_core_next_task: "fifo_core ids s \<Longrightarrow> fifo_core ids (next_task s)"
  using next_task_cases[of s] start_order_next_task[of s]
  by (auto simp: fifo_core_def isBeforePause_def)

lemma fifo_live_next_task:
  assumes "fifo_core ids s"
  shows "fifo_live (next_task s)"
  using next_task_cases[of s] assms
  by (auto simp: fifo_core_def fifo_live_def)

lemma fifo_core_fields:
  "fifo_core ids (s\<lparr>jobs := js\<rparr>) = fifo_core ids s"
  "fifo_core ids (s\<lparr>finishList := fl\<rparr>) = fifo_core ids s"
  "fifo_core ids (s\<lparr>excuteList := el\<rparr>) = fifo_core ids s"
  "fifo_core ids (s\<lparr>fulfilled := fu\<rparr>) = fifo_core ids s"
  "fifo_core ids (s\<lparr>reactions := re\<rparr>) = fifo_core ids s"
  "fifo_core ids (s\<lparr>remaining := rm\<rparr>) = fifo_core ids s"
  by (simp_all add: fifo_core_def start_order_def isBeforePause_def)

lemma fifo_core_enqueue: "fifo_core ids (enqueue j s) = fifo_core ids s"
  by (simp add: enqueue_def fifo_core_fields)

lemma fifo_core_settled:
  assumes "started [e] = []"
  shows "fifo_core ids (emit e (set_task_status r st s)) = fifo_core ids s"
  using assms
  by (auto simp: fifo_core_def start_order_def isBeforePause_def emit_def set_task_status_def
        started_append)

lemma fifo_core_run_job: "fifo_core ids s \<Longrightarrow> fifo_core ids (run_job j s)"
proof (cases j)
  case (ThenJob r p b)
  assume "fifo_core ids s"
  then show ?thesis using ThenJob
    by (simp add: Let_def fifo_core_enqueue fifo_core_settled fifo_core_next_task)
next
  case (CatchJob r p b)
  assume "fifo_core ids s"
  then show ?thesis using CatchJob
    by (simp add: Let_def fifo_core_enqueue fifo_core_settled)
next
  case (FinallyJob r p)
  assume "fifo_core ids s"
  then show ?thesis using FinallyJob
    by (simp add: Let_def fifo_core_enqueue fifo_core_fields fifo_core_next_task)
next
  case PauseFinallyJob
  assume "fifo_core ids s"
  then show ?thesis using PauseFinallyJob
    by (auto simp: fifo_core_def start_order_def isBeforePause_def emit_def started_append)
next
  case (FulfilJob p)
  assume "fifo_core ids s"
  then show ?thesis using FulfilJob
    by (simp add: Let_def fifo_core_fields)
next
  case (AllElemJob a)
  assume "fifo_core ids s"
  then show ?thesis using AllElemJob
    by (simp add: Let_def fifo_core_enqueue fifo_core_fields)
qed (simp_all add: fifo_core_enqueue)


lemma fifo_live_mono:
  assumes "fifo_live s" "waitList t = waitList s" "set (jobs s) \<subseteq> set (jobs t)"
    "options t = options s"
  shows "fifo_live t"
  using assms by (auto simp: fifo_live_def)

lemma fifo_live_enqueue: "fifo_live s \<Longrightarrow> fifo_live (enqueue j s)"
  by (rule fifo_live_mono) (auto simp: enqueue_def)

lemma fifo_live_advancing:
  "advances (continueWhenError (options s)) j \<Longrightarrow> fifo_live (enqueue j s)"
  by (auto simp: fifo_live_def enqueue_def)

lemma fifo_inv_microtask: "fifo_inv ids s \<Longrightarrow> fifo_inv ids (microtask s)"
proof (cases "jobs s")
  case Nil
  assume "fifo_inv ids s"
  then show ?thesis using Nil by (simp add: microtask_def)
next
  case (Cons j js)
  assume inv: "fifo_inv ids s"
  let ?c = "continueWhenError (options s)"
  let ?s0 = "s\<lparr>jobs := js\<rparr>"
  have m: "microtask s = run_job j ?s0" using Cons by (simp add: microtask_def)
  have core0: "fifo_core ids ?s0" using inv by (simp add: fifo_inv_def fifo_core_fields)
  have core: "fifo_core ids (run_job j ?s0)" by (rule fifo_core_run_job[OF core0])
  have live0: "fifo_live ?s0" if "\<not> advances ?c j"
    using inv Cons that by (auto simp: fifo_inv_def fifo_live_def)
  have "fifo_live (run_job j ?s0)"
  proof (cases j)
    case (ThenJob r p b)
    let ?s2 = "emit (EVENT_TASK_SUCCESS r STATUS_SUCCESS (waitList s) (finishList s))
                 (set_task_status r STATUS_SUCCESS ?s0)"
    have c2: "fifo_core ids ?s2" using core0 by (simp add: fifo_core_settled)
    have o2: "options ?s2 = options s" by (simp add: emit_def set_task_status_def)
    show ?thesis
    proof (cases "b \<or> ?c")
      case False
      then show ?thesis using ThenJob live0 by (simp add: fifo_live_enqueue)
    next
      case True
      show ?thesis
      proof (cases ?c)
        case c: True
        have "fifo_live (enqueue (CatchJob r p b') t)" if "options t = options s" for t b'
          using c that by (intro fifo_live_advancing) simp
        then show ?thesis using ThenJob c
          by (simp add: Let_def emit_def set_task_status_def)
      next
        case c: False
        with True have b by simp
        have "fifo_live (enqueue (CatchJob r p True) (next_task ?s2))"
          by (intro fifo_live_enqueue fifo_live_next_task[OF c2])
        then show ?thesis using ThenJob c \<open>b\<close>
          by (simp add: Let_def emit_def set_task_status_def)
      qed
    qed
  next
    case (CatchJob r p b)
    show ?thesis
    proof (cases ?c)
      case True
      have "fifo_live (enqueue (FinallyJob r p) t)" if "options t = options s" for t
        using True that by (intro fifo_live_advancing) simp
      then show ?thesis using CatchJob
        by (simp add: Let_def emit_def set_task_status_def)
    next
      case False
      have "fifo_live (enqueue (FinallyJob r p) t)"
        if "waitList t = waitList s" "jobs t = js" "options t = options s" for t
        using live0 CatchJob False that
        by (intro fifo_live_enqueue fifo_live_mono[of ?s0 t]) simp_all
      then show ?thesis using CatchJob
        by (simp add: Let_def emit_def set_task_status_def)
    qed
  next
    case (FinallyJob r p)
    let ?s1 = "if \<not> removeAfterFinish (options s)
               then ?s0\<lparr>finishList := finishList s @ [r]\<rparr> else ?s0"
    have c1: "fifo_core ids ?s1" using core0 by (simp add: fifo_core_fields)
    show ?thesis
    proof (cases ?c)
      case True
      have "fifo_live (next_task ?s1)" by (rule fifo_live_next_task[OF c1])
      then have "fifo_live ((next_task ?s1)\<lparr>excuteList := drop 1 (excuteList (next_task ?s1))\<rparr>)"
        by (rule fifo_live_mono) simp_all
      then have "fifo_live (enqueue (ResolveThenableJob p) (enqueue ThunkJob
                   ((next_task ?s1)\<lparr>excuteList := drop 1 (excuteList (next_task ?s1))\<rparr>)))"
        by (intro fifo_live_enqueue)
      then show ?thesis using FinallyJob True
        by (cases "removeAfterFinish (options s)") (simp_all add: Let_def)
    next
      case False
      have "fifo_live ?s1" using live0 FinallyJob False
        by (intro fifo_live_mono[of ?s0 ?s1]) simp_all
      then have "fifo_live (?s1\<lparr>excuteList := drop 1 (excuteList ?s1)\<rparr>)"
        by (rule fifo_live_mono) simp_all
      then have "fifo_live (enqueue (ResolveThenableJob p) (enqueue ThunkJob
                   (?s1\<lparr>excuteList := drop 1 (excuteList ?s1)\<rparr>)))"
        by (intro fifo_live_enqueue)
      then show ?thesis using FinallyJob False
        by (cases "removeAfterFinish (options s)") (simp_all add: Let_def)
    qed
  next
    case ThunkJob
    then show ?thesis using live0 by simp
  next
    case (ResolveThenableJob p)
    then show ?thesis using live0 by (simp add: fifo_live_enqueue)
  next
    case (FulfilJob p)
    have "fifo_live ?s0" using live0 FulfilJob by simp
    then show ?thesis using FulfilJob
      by (auto simp: Let_def fifo_live_def)
  next
    case (AllElemJob a)
    have "fifo_live ?s0" using live0 AllElemJob by simp
    then show ?thesis using AllElemJob
      by (auto simp: Let_def fifo_live_def enqueue_def)
  next
    case PauseFinallyJob
    have "fifo_live ?s0" using live0 PauseFinallyJob by simp
    then show ?thesis using PauseFinallyJob
      by (auto simp: Let_def fifo_live_def emit_def)
  qed
  then show ?thesis using core by (simp add: m fifo_inv_def)
qed


lemma next_task_running:
  assumes "fifo_core ids s" "isRunning (next_task s)" "isRunning s"
  shows "\<exists>j \<in> set (jobs (next_task s)). advances (continueWhenError (options s)) j"
  using next_task_cases[of s] assms
  by (auto simp: fifo_core_def isRunning_def)

lemma fifo_pre_exec:
  assumes "fifo_pre opts ids s"
  shows "fifo_pre opts ids (exec s) \<and> fifo_live (exec s)"
proof (cases "isRunning s")
  case True
  then have e: "exec s = s\<lparr>trace := trace s @ [CONSOLE_WARN]\<rparr>"
    by (simp add: exec_def emit_def)
  have "fifo_pre opts ids (s\<lparr>trace := trace s @ [CONSOLE_WARN]\<rparr>)"
    using assms
    by (auto simp: fifo_pre_def fifo_core_def start_order_def started_append isRunning_def
          isBeforePause_def tracked_def)
  moreover have "fifo_live (s\<lparr>trace := trace s @ [CONSOLE_WARN]\<rparr>)"
    using assms True by (auto simp: fifo_pre_def fifo_live_def)
  ultimately show ?thesis by (simp add: e)
next
  case False
  let ?s2 = "s\<lparr>status := STATUS_QUEUE_RUNNING,
               trace := trace s @ [EVENT_QUEUE_START (waitList s) (finishList s)]\<rparr>"
  have e: "exec s = next_task ?s2" using False by (simp add: exec_def emit_def Let_def)
  have c2: "fifo_core ids ?s2" using assms
    by (auto simp: fifo_pre_def fifo_core_def start_order_def started_append isBeforePause_def)
  have o: "options s = opts" using assms by (simp add: fifo_pre_def)
  have live: "fifo_live (next_task ?s2)" by (rule fifo_live_next_task[OF c2])
  have core: "fifo_core ids (next_task ?s2)" by (rule fifo_core_next_task[OF c2])
  have run: "isRunning (next_task ?s2) \<longrightarrow>
                (\<exists>j \<in> set (jobs (next_task ?s2)). advances (continueWhenError opts) j)"
    using next_task_running[OF c2] o by (auto simp: isRunning_def)
  have opt: "options (next_task ?s2) = opts" using o by (simp add: options_next_task)
  have fresh: "\<forall>r \<in> set (tracked (next_task ?s2)) \<union> set (started (trace (next_task ?s2))).
         r < next_ref (next_task ?s2)"
  proof
    fix r assume "r \<in> set (tracked (next_task ?s2)) \<union> set (started (trace (next_task ?s2)))"
    then have "r \<in> set (tracked ?s2) \<union> set (started (trace ?s2))"
      using next_task_keeps(2,4)[of ?s2] by (auto simp: tracked_def)
    then have "r \<in> set (tracked s) \<union> set (started (trace s))"
      by (auto simp: tracked_def started_append)
    then show "r < next_ref (next_task ?s2)"
      using assms by (simp add: fifo_pre_def next_task_keeps(1))
  qed
  have idsub: "(\<lambda>r. task_id (store (next_task ?s2) r)) ` set (tracked (next_task ?s2)) \<subseteq> set ids"
  proof -
    have "(\<lambda>r. task_id (store (next_task ?s2) r)) ` set (tracked (next_task ?s2)) =
          (\<lambda>r. task_id (store s r)) ` set (tracked s)"
      by (simp add: next_task_keeps(2,3)) (simp add: tracked_def)
    then show ?thesis using assms by (simp add: fifo_pre_def)
  qed
  show ?thesis using live core run opt fresh idsub by (simp add: e fifo_pre_def)
qed

lemma fifo_pre_push:
  assumes pre: "fifo_pre opts ids s" and new: "i \<notin> set ids"
    and inst: "b \<or> continueWhenError opts"
  shows "fifo_pre opts (ids @ [i]) (fst (push i (Instant b) cb s))"
proof -
  let ?n = "next_ref s"
  let ?s2 = "s\<lparr>store := (store s)(?n := \<lparr>task_id = i, task_status = STATUS_WAITING,
                                           excute = Instant b, excutePromise = None\<rparr>),
                next_ref := Suc ?n, waitList := waitList s @ [?n]\<rparr>"
  have "i \<notin> (\<lambda>r. task_id (store s r)) ` set (tracked s)"
    using pre new by (auto simp: fifo_pre_def)
  then have none: "findTaskById i s = None" by (rule findTaskById_fresh)
  have p: "fst (push i (Instant b) cb s) = (if immediate (options s) then exec ?s2 else ?s2)"
    using none by (simp add: push_def Let_def)
  have fresh: "\<forall>r \<in> set (tracked s) \<union> set (started (trace s)). r \<noteq> ?n"
    using pre by (auto simp: fifo_pre_def)
  then have same: "\<forall>r \<in> set (tracked s) \<union> set (started (trace s)). store ?s2 r = store s r"
    by simp
  have wl: "set (waitList s) \<subseteq> set (tracked s)" by (auto simp: tracked_def)
  have so: "start_order ?s2 = start_order s @ [i]"
    using fresh by (auto simp: start_order_def tracked_def)
  have tr: "set (tracked ?s2) = insert ?n (set (tracked s))" by (auto simp: tracked_def)
  have "fifo_pre opts (ids @ [i]) ?s2"
    unfolding fifo_pre_def fifo_core_def
  proof (intro conjI)
    show "start_order ?s2 = ids @ [i]" using so pre by (simp add: fifo_pre_def fifo_core_def)
    show "\<forall>r\<in>set (waitList ?s2). \<exists>b. excute (store ?s2 r) = Instant b \<and>
            (b \<or> continueWhenError (options ?s2))"
      using pre inst by (auto simp: fifo_pre_def fifo_core_def)
    show "\<not> isBeforePause ?s2" using pre by (simp add: fifo_pre_def fifo_core_def isBeforePause_def)
    show "isRunning ?s2 \<longrightarrow> (\<exists>j\<in>set (jobs ?s2). advances (continueWhenError opts) j)"
      using pre by (simp add: fifo_pre_def isRunning_def)
    show "options ?s2 = opts" using pre by (simp add: fifo_pre_def)
    show "\<forall>r\<in>set (tracked ?s2) \<union> set (started (trace ?s2)). r < next_ref ?s2"
      using pre by (auto simp: fifo_pre_def tr less_Suc_eq)
    have "task_id (store ?s2 r) \<in> set (ids @ [i])" if "r \<in> set (tracked ?s2)" for r
    proof (cases "r = ?n")
      case True then show ?thesis by simp
    next
      case False
      then have "r \<in> set (tracked s)" using that tr by auto
      then have "task_id (store s r) \<in> set ids" using pre by (auto simp: fifo_pre_def)
      then show ?thesis using False by simp
    qed
    then show "(\<lambda>r. task_id (store ?s2 r)) ` set (tracked ?s2) \<subseteq> set (ids @ [i])"
      by blast
  qed
  then show ?thesis using fifo_pre_exec[of opts "ids @ [i]" ?s2] by (simp add: p)
qed

lemma fifo_pre_pushes:
  assumes "fifo_pre opts ids s" "distinct (ids @ map fst ts)"
    "\<forall>(i, f) \<in> set ts. \<exists>b. f = Instant b \<and> (b \<or> continueWhenError opts)"
  shows "fifo_pre opts (ids @ map fst ts) (pushes ts s)"
  using assms
proof (induction ts arbitrary: ids s)
  case Nil
  then show ?case by simp
next
  case (Cons x ts)
  obtain i f where x: "x = (i, f)" by (cases x)
  from Cons.prems(3) x obtain b where b: "f = Instant b" "b \<or> continueWhenError opts"
    by auto
  have new: "i \<notin> set ids" using Cons.prems(2) x by auto
  have "fifo_pre opts (ids @ [i]) (fst (push i (Instant b) False s))"
    by (rule fifo_pre_push[OF Cons.prems(1) new b(2)])
  moreover have "distinct ((ids @ [i]) @ map fst ts)" using Cons.prems(2) x by auto
  moreover have "\<forall>(i, f) \<in> set ts. \<exists>b. f = Instant b \<and> (b \<or> continueWhenError opts)"
    using Cons.prems(3) by auto
  ultimately have "fifo_pre opts ((ids @ [i]) @ map fst ts)
                     (pushes ts (fst (push i (Instant b) False s)))"
    by (rule Cons.IH)
  then show ?case by (simp add: x b)
qed

lemma fifo_pre_new: "fifo_pre opts [] (new_queue opts)"
  by (simp add: fifo_pre_def fifo_core_def start_order_def new_queue_def isBeforePause_def
        isRunning_def tracked_def)

text \<open>
  Claim C1: tasks with distinct ids are pushed, each with an execute operation whose
  promise is already settled when it is returned (fulfilled, or also rejected when
  \<open>continueWhenError\<close> is set), and \<open>exec()\<close> is called.  Then the microtask loop comes to
  rest, and the ids of the \<open>EVENT_TASK_START\<close> notifications, in the order of publication,
  are the ids in the order of submission; no task is left waiting.
\<close>

theorem fifo_start_order:
  assumes "distinct (map fst ts)"
    and "\<forall>(i, f) \<in> set ts. \<exists>b. f = Instant b \<and> (b \<or> continueWhenError opts)"
  shows "\<exists>n s'. drain n (exec (pushes ts (new_queue opts))) = Some s' \<and>
           map (\<lambda>r. task_id (store s' r)) (started (trace s')) = map fst ts \<and>
           waitList s' = []"
proof -
  let ?s = "exec (pushes ts (new_queue opts))"
  have "fifo_pre opts ([] @ map fst ts) (pushes ts (new_queue opts))"
    using assms by (intro fifo_pre_pushes fifo_pre_new) simp_all
  then have "fifo_inv (map fst ts) ?s"
    using fifo_pre_exec[of opts "map fst ts" "pushes ts (new_queue opts)"]
    by (simp add: fifo_inv_def fifo_pre_def)
  from drain_invariant[of "fifo_inv (map fst ts)", OF fifo_inv_microtask this order_refl]
  obtain s' where s': "drain (work ?s) ?s = Some s'" "fifo_inv (map fst ts) s'" "jobs s' = []"
    by blast
  from s'(2,3) have w: "waitList s' = []" by (auto simp: fifo_inv_def fifo_live_def)
  with s'(2) have "map (\<lambda>r. task_id (store s' r)) (started (trace s')) = map fst ts"
    by (simp add: fifo_inv_def fifo_core_def start_order_def)
  with s'(1) w show ?thesis by blast
qed

theorem fifo_start_order_witness:
  "distinct (map fst [(''A'', Instant True), (''B'', Instant True), (''C'', Instant True)]) \<and>
   (\<exists>n s'. drain n (exec (pushes [(''A'', Instant True), (''B'', Instant True),
                                   (''C'', Instant True)] (new_queue default_options)))
              = Some s' \<and>
            map (\<lambda>r. task_id (store s' r)) (started (trace s')) = [''A'', ''B'', ''C''])"
proof -
  let ?ts = "[(''A'', Instant True), (''B'', Instant True), (''C'', Instant True)]"
  have d: "distinct (map fst ?ts)" by simp
  have i: "\<forall>(i, f) \<in> set ?ts. \<exists>b. f = Instant b \<and> (b \<or> continueWhenError default_options)"
    by auto
  from fifo_start_order[OF d i]
  obtain n s' where "drain n (exec (pushes ?ts (new_queue default_options))) = Some s'"
    "map (\<lambda>r. task_id (store s' r)) (started (trace s')) = map fst ?ts"
    by blast
  then have "\<exists>n s'. drain n (exec (pushes ?ts (new_queue default_options))) = Some s' \<and>
            map (\<lambda>r. task_id (store s' r)) (started (trace s')) = [''A'', ''B'', ''C'']"
    by (intro exI[of _ n] exI[of _ s']) simp
  with d show ?thesis by blast
qed

section \<open>One task in flight\<close>

lemma map_filter_append: "List.map_filter f (xs @ ys) = List.map_filter f xs @ List.map_filter f ys"
  by (simp add: List.map_filter_def)

lemma map_filter_Cons:
  "List.map_filter f (x # xs) =
     (case f x of None \<Rightarrow> List.map_filter f xs | Some y \<Rightarrow> y # List.map_filter f xs)"
  by (simp add: List.map_filter_def split: option.splits)

lemma map_filter_Nil: "List.map_filter f [] = []"
  by (simp add: List.map_filter_def)

lemmas mf_simps = map_filter_append map_filter_Cons map_filter_Nil

lemma last_drop1: "Suc (Suc 0) \<le> length xs \<Longrightarrow> last (drop (Suc 0) xs) = last xs"
  by (cases xs) auto

text \<open>jobs\<close>

lemma head_is_chain: "head_pid c j = Some (r, p) \<Longrightarrow> chain_job j \<and> job_pid j = Some p \<and> \<not> pause_job j"
  by (cases j) (auto split: if_splits)

lemma unsettled_is_head: "unsettled_task j = Some r \<Longrightarrow> \<exists>p. head_pid c j = Some (r, p)"
  by (cases j) (auto split: if_splits)

lemma heads_le_chains:
  "length (List.map_filter (head_pid c) js) \<le> length (filter chain_job js)"
proof (induction js)
  case Nil show ?case by (simp add: mf_simps)
next
  case (Cons j js)
  then show ?case using head_is_chain[of c j]
    by (cases "head_pid c j") (auto simp: mf_simps)
qed

lemma unsettled_sub_heads: "set (unsettled s) \<subseteq> fst ` set (head_list s)"
proof -
  have "set (List.map_filter unsettled_task js) \<subseteq> fst ` set (List.map_filter (head_pid c) js)"
    for js c
  proof (induction js)
    case Nil show ?case by (simp add: mf_simps)
  next
    case (Cons j js)
    then show ?case using unsettled_is_head[of j _ c]
      by (cases "unsettled_task j"; cases "head_pid c j") (auto simp: mf_simps)
  qed
  moreover have "set (map fst xs) = fst ` set (map (\<lambda>(r, p, b). (r, p)) xs)"
    for xs :: "(ref \<times> pid \<times> bool) list"
    by (induction xs) auto
  ultimately show ?thesis
    unfolding unsettled_def head_list_def set_append image_Un by blast
qed

lemma mf_Nil_iff: "(List.map_filter f xs = []) = (\<forall>x \<in> set xs. f x = None)"
  by (induction xs) (auto simp: mf_simps split: option.splits)

lemma mf_set: "(y \<in> set (List.map_filter f xs)) = (\<exists>x \<in> set xs. f x = Some y)"
  by (induction xs) (auto simp: mf_simps split: option.splits)

text \<open>the invariant, taken apart and put together\<close>

lemma sequentialI:
  assumes "length (head_list s) \<le> 1"
    and "\<And>r. task_status (store s r) = STATUS_PEDDING \<Longrightarrow> r \<in> set (unsettled s)"
    and "\<not> isRunning s \<Longrightarrow> \<not> isBeforePause s \<Longrightarrow> head_list s = []"
    and "length (excuteList s) = length (pending s) + length (filter chain_job (jobs s))"
    and "\<And>r p. (r, p) \<in> set (head_list s) \<Longrightarrow> head_ok s r p"
    and "pids_ok s"
    and "pause_inv s"
  shows "sequential s"
  using assms by (auto simp: sequential_def flight_inv_def chain_inv_def)

lemma sequentialD:
  assumes "sequential s"
  shows "length (head_list s) \<le> 1"
    and "\<And>r. task_status (store s r) = STATUS_PEDDING \<Longrightarrow> r \<in> set (unsettled s)"
    and "\<not> isRunning s \<Longrightarrow> \<not> isBeforePause s \<Longrightarrow> head_list s = []"
    and "length (excuteList s) = length (pending s) + length (filter chain_job (jobs s))"
    and "\<And>r p. (r, p) \<in> set (head_list s) \<Longrightarrow> head_ok s r p"
    and "pids_ok s"
    and "pause_inv s"
  using assms by (auto simp: sequential_def flight_inv_def chain_inv_def)

lemma sequential_new: "sequential (new_queue opts)"
  by (rule sequentialI)
     (simp_all add: new_queue_def blank_task_def head_list_def unsettled_def pids_ok_def
        pause_inv_def isBeforePause_def mf_simps)


lemma pause_inv_frame:
  assumes "filter pause_job (jobs t) = filter pause_job (jobs s)" "reactions t = reactions s"
    "isBeforePause t = isBeforePause s" "next_aid t = next_aid s" "remaining t = remaining s"
  shows "pause_inv t = pause_inv s"
  using assms by (simp add: pause_inv_def pause_count_def)

lemma pause_inv_idle:
  assumes "\<not> isBeforePause t" "filter pause_job (jobs t) = []" "reactions t = []"
  shows "pause_inv t"
  using assms by (simp add: pause_inv_def)

lemma pause_invD_idle:
  assumes "pause_inv s" "\<not> isBeforePause s"
  shows "reactions s = []" "filter pause_job (jobs s) = []"
  using assms by (simp_all add: pause_inv_def)

text \<open>
  Starting the next task from a state with no head and no pending task; \<open>extra\<close> are the
  jobs the caller of \<open>next()\<close> queues afterwards and \<open>dr\<close> the entries it drops from the
  in-flight list.
\<close>

lemma sequential_start:
  fixes t :: state and extra :: "job list" and dr :: nat
  defines "c \<equiv> continueWhenError (options t)"
  assumes pe: "pending t = []" and nh: "List.map_filter (head_pid c) (jobs t) = []"
    and np: "\<And>x. task_status (store t x) \<noteq> STATUS_PEDDING"
    and po: "pids_ok t" and pa: "pause_inv t"
    and st: "isRunning t \<or> isBeforePause t"
    and cnt: "length (excuteList t) = length (filter chain_job (jobs t)) + d"
    and ex: "\<And>j. j \<in> set extra \<Longrightarrow> head_pid c j = None \<and> \<not> pause_job j \<and>
                 (\<forall>p. job_pid j = Some p \<longrightarrow> p < next_pid t)"
    and d: "length (filter chain_job extra) + dr = d"
  shows "sequential ((next_task t)\<lparr>excuteList := drop dr (excuteList (next_task t)),
                                    jobs := jobs (next_task t) @ extra\<rparr>)"
    (is "sequential ?s'")
proof -
  have e1: "List.map_filter (head_pid c) extra = []"
    using ex by (simp add: mf_Nil_iff)
  have e2: "filter pause_job extra = []" using ex by simp
  have e3: "List.map_filter unsettled_task extra = []"
  proof -
    have "unsettled_task j = None" if "j \<in> set extra" for j
      using ex[OF that] unsettled_is_head[of j _ c] by (cases "unsettled_task j") auto
    then show ?thesis by (simp add: mf_Nil_iff)
  qed
  have u0: "List.map_filter unsettled_task (jobs t) = []"
  proof -
    have "unsettled_task j = None" if "j \<in> set (jobs t)" for j
      using nh that unsettled_is_head[of j _ c] by (cases "unsettled_task j") (auto simp: mf_Nil_iff)
    then show ?thesis by (simp add: mf_Nil_iff)
  qed
  have pj: "\<And>j p. j \<in> set (jobs t) \<Longrightarrow> job_pid j = Some p \<Longrightarrow> p < next_pid t"
    and pf: "\<And>p. p \<in> set (fulfilled t) \<Longrightarrow> p < next_pid t"
    and pw: "\<And>r. r \<in> set (waitList t) \<Longrightarrow> r < next_ref t"
    using po by (auto simp: pids_ok_def)
  consider (bp) "isBeforePause t" "next_task t = t"
    | (fin) "\<not> isBeforePause t" "waitList t = []"
        "next_task t = t\<lparr>status := STATUS_QUEUE_FINISH,
                         trace := trace t @ [EVENT_QUEUE_FINISH [] (finishList t)]\<rparr>"
    | (inst) r w b where "\<not> isBeforePause t" "waitList t = r # w"
        "next_task t =
          t\<lparr>waitList := w, excuteList := excuteList t @ [r],
            trace := trace t @ [EVENT_TASK_START r (task_status (store t r)) w (finishList t)],
            store := (store t)(r := (store t r)\<lparr>task_status := STATUS_PEDDING,
                                                excutePromise := Some (next_pid t)\<rparr>),
            next_pid := Suc (next_pid t),
            jobs := jobs t @ [ThenJob r (next_pid t) b]\<rparr>"
    | (later) r w b where "\<not> isBeforePause t" "waitList t = r # w"
        "next_task t =
          t\<lparr>waitList := w, excuteList := excuteList t @ [r],
            trace := trace t @ [EVENT_TASK_START r (task_status (store t r)) w (finishList t)],
            store := (store t)(r := (store t r)\<lparr>task_status := STATUS_PEDDING,
                                                excutePromise := Some (next_pid t)\<rparr>),
            next_pid := Suc (next_pid t),
            pending := pending t @ [(r, next_pid t, b)]\<rparr>"
    using next_task_cases[of t] by blast
  then show ?thesis
  proof cases
    case bp
    show ?thesis
    proof (rule sequentialI)
      show "pause_inv ?s'"
        using pa e2 by (subst pause_inv_frame[of _ t]) (simp_all add: bp isBeforePause_def)
      show "pids_ok ?s'" using po ex by (auto simp: pids_ok_def bp)
    qed (use pe nh np e1 e3 u0 cnt d in
          \<open>simp_all add: bp head_list_def unsettled_def c_def[symmetric] map_filter_append\<close>)
  next
    case fin
    have run: "isRunning t" using st fin by simp
    show ?thesis
    proof (rule sequentialI)
      show "pause_inv ?s'"
        using pause_invD_idle[OF pa fin(1)] e2
        by (intro pause_inv_idle) (simp_all add: fin isBeforePause_def)
      show "pids_ok ?s'" using po ex by (auto simp: pids_ok_def fin)
    qed (use pe nh np e1 e3 u0 cnt d in
          \<open>simp_all add: fin head_list_def unsettled_def c_def[symmetric] map_filter_append\<close>)
  next
    case inst
    have run: "isRunning t" using st inst by simp
    have hl: "head_list ?s' = [(r, next_pid t)]"
      using pe nh e1 by (simp add: inst head_list_def c_def[symmetric] map_filter_append)
    show ?thesis
    proof (rule sequentialI)
      show "pause_inv ?s'"
        using pause_invD_idle[OF pa inst(1)] e2 inst(1)
        by (intro pause_inv_idle) (simp_all add: inst(3) isBeforePause_def)
      show "pids_ok ?s'" using po ex
        by (auto simp: pids_ok_def inst less_Suc_eq)
      show "length (head_list ?s') \<le> 1" by (simp add: hl)
      show "\<And>x. task_status (store ?s' x) = STATUS_PEDDING \<Longrightarrow> x \<in> set (unsettled ?s')"
        using np by (simp add: inst unsettled_def map_filter_append split: if_splits)
      show "\<not> isRunning ?s' \<Longrightarrow> \<not> isBeforePause ?s' \<Longrightarrow> head_list ?s' = []"
        using run by (simp add: inst isRunning_def)
      show "length (excuteList ?s') =
              length (pending ?s') + length (filter chain_job (jobs ?s'))"
        using pe cnt d by (simp add: inst)
      show "\<And>r' p. (r', p) \<in> set (head_list ?s') \<Longrightarrow> head_ok ?s' r' p"
      proof -
        fix r' p assume "(r', p) \<in> set (head_list ?s')"
        then have rp: "r' = r" "p = next_pid t" by (simp_all add: hl)
        have a: "last (drop dr (excuteList t @ [r])) = r"
          using cnt d by (cases dr) (auto simp: last_drop1)
        have b: "\<And>j. j \<in> set (jobs t) \<Longrightarrow> job_pid j \<noteq> Some (next_pid t)"
          using pj by fastforce
        have b': "\<And>j. j \<in> set extra \<Longrightarrow> job_pid j \<noteq> Some (next_pid t)"
          using ex by fastforce
        have f: "next_pid t \<notin> set (fulfilled t)" using pf by fastforce
        show "head_ok ?s' r' p"
          unfolding rp head_ok_def
          using a b b' f pw inst(1)
          by (auto simp: inst isBeforePause_def)
      qed
    qed
  next
    case later
    have run: "isRunning t" using st later by simp
    have hl: "head_list ?s' = [(r, next_pid t)]"
      using pe nh e1 by (simp add: later head_list_def c_def[symmetric] map_filter_append)
    show ?thesis
    proof (rule sequentialI)
      show "pause_inv ?s'"
        using pause_invD_idle[OF pa later(1)] e2 later(1)
        by (intro pause_inv_idle) (simp_all add: later(3) isBeforePause_def)
      show "pids_ok ?s'" using po ex pe
        by (auto simp: pids_ok_def later less_Suc_eq)
      show "length (head_list ?s') \<le> 1" by (simp add: hl)
      show "\<And>x. task_status (store ?s' x) = STATUS_PEDDING \<Longrightarrow> x \<in> set (unsettled ?s')"
        using np pe by (simp add: later unsettled_def map_filter_append split: if_splits)
      show "\<not> isRunning ?s' \<Longrightarrow> \<not> isBeforePause ?s' \<Longrightarrow> head_list ?s' = []"
        using run by (simp add: later isRunning_def)
      show "length (excuteList ?s') =
              length (pending ?s') + length (filter chain_job (jobs ?s'))"
        using pe cnt d by (simp add: later)
      show "\<And>r' p. (r', p) \<in> set (head_list ?s') \<Longrightarrow> head_ok ?s' r' p"
      proof -
        fix r' p assume "(r', p) \<in> set (head_list ?s')"
        then have rp: "r' = r" "p = next_pid t" by (simp_all add: hl)
        have a: "last (drop dr (excuteList t @ [r])) = r"
          using cnt d by (cases dr) (auto simp: last_drop1)
        have b: "\<And>j. j \<in> set (jobs t) \<Longrightarrow> job_pid j \<noteq> Some (next_pid t)"
          using pj by fastforce
        have b': "\<And>j. j \<in> set extra \<Longrightarrow> job_pid j \<noteq> Some (next_pid t)"
          using ex by fastforce
        have f: "next_pid t \<notin> set (fulfilled t)" using pf by fastforce
        show "head_ok ?s' r' p"
          unfolding rp head_ok_def
          using a b b' f pw later(1)
          by (auto simp: later isBeforePause_def)
      qed
    qed
  qed
qed


lemma no_pending_idle:
  assumes "sequential s" "head_list s = []"
  shows "task_status (store s x) \<noteq> STATUS_PEDDING"
  using sequentialD(2)[OF assms(1), of x] unsettled_sub_heads[of s] assms(2) by auto

lemma head_list_NilD:
  assumes "head_list s = []"
  shows "pending s = []"
    "List.map_filter (head_pid (continueWhenError (options s))) (jobs s) = []"
  using assms by (simp_all add: head_list_def)

lemma sequential_frame:
  "sequential (s\<lparr>trace := tr\<rparr>) = sequential s"
  "sequential (s\<lparr>finishList := fl\<rparr>) = sequential s"
  by (simp_all add: sequential_def flight_inv_def chain_inv_def pause_inv_def head_list_def
        unsettled_def head_ok_def pids_ok_def pause_count_def isRunning_def isBeforePause_def
      cong: if_cong)

lemma sequential_exec:
  assumes sq: "sequential s" and nb: "\<not> isBeforePause s"
  shows "sequential (exec s)"
proof (cases "isRunning s")
  case True
  then have "exec s = s\<lparr>trace := trace s @ [CONSOLE_WARN]\<rparr>" by (simp add: exec_def emit_def)
  then show ?thesis using sq by (simp add: sequential_frame)
next
  case False
  let ?t = "s\<lparr>status := STATUS_QUEUE_RUNNING,
              trace := trace s @ [EVENT_QUEUE_START (waitList s) (finishList s)]\<rparr>"
  have e: "exec s = next_task ?t" using False by (simp add: exec_def emit_def Let_def)
  have h: "head_list s = []" by (rule sequentialD(3)[OF sq False nb])
  note idle = pause_invD_idle[OF sequentialD(7)[OF sq] nb]
  have "sequential ((next_task ?t)\<lparr>excuteList := drop 0 (excuteList (next_task ?t)),
                                     jobs := jobs (next_task ?t) @ []\<rparr>)"
  proof (rule sequential_start[where d = 0])
    show "pending ?t = []" using head_list_NilD(1)[OF h] by simp
    show "List.map_filter (head_pid (continueWhenError (options ?t))) (jobs ?t) = []"
      using head_list_NilD(2)[OF h] by simp
    show "\<And>x. task_status (store ?t x) \<noteq> STATUS_PEDDING"
      using no_pending_idle[OF sq h] by simp
    show "pids_ok ?t" using sequentialD(6)[OF sq] by (simp add: pids_ok_def)
    show "pause_inv ?t" using idle by (intro pause_inv_idle) (simp_all add: isBeforePause_def)
    show "isRunning ?t \<or> isBeforePause ?t" by (simp add: isRunning_def)
    show "length (excuteList ?t) = length (filter chain_job (jobs ?t)) + 0"
      using sequentialD(4)[OF sq] head_list_NilD(1)[OF h] by simp
  qed simp_all
  then show ?thesis by (simp add: e)
qed

lemma sequential_resume: "sequential s \<Longrightarrow> sequential (resume s)"
  by (auto simp: resume_def isPause_def isBeforePause_def intro: sequential_exec)

lemma sequential_push:
  assumes sq: "sequential s" and g: "\<not> (immediate (options s) \<and> isBeforePause s)"
  shows "sequential (fst (push i f cb s))"
proof (cases "findTaskById i s")
  case (Some t)
  then show ?thesis using sq by (simp add: push_def emit_def sequential_frame)
next
  case None
  let ?n = "next_ref s"
  let ?s2 = "s\<lparr>store := (store s)(?n := \<lparr>task_id = i, task_status = STATUS_WAITING,
                                           excute = f, excutePromise = None\<rparr>),
                next_ref := Suc ?n, waitList := waitList s @ [?n]\<rparr>"
  have p: "fst (push i f cb s) = (if immediate (options s) then exec ?s2 else ?s2)"
    using None by (simp add: push_def Let_def)
  have hl: "head_list ?s2 = head_list s" by (simp add: head_list_def)
  have s2: "sequential ?s2"
  proof (rule sequentialI)
    show "length (head_list ?s2) \<le> 1" using sequentialD(1)[OF sq] by (simp add: hl)
    show "\<And>r. task_status (store ?s2 r) = STATUS_PEDDING \<Longrightarrow> r \<in> set (unsettled ?s2)"
      using sequentialD(2)[OF sq] by (simp add: unsettled_def split: if_splits)
    show "\<not> isRunning ?s2 \<Longrightarrow> \<not> isBeforePause ?s2 \<Longrightarrow> head_list ?s2 = []"
      using sequentialD(3)[OF sq] by (simp add: hl isRunning_def isBeforePause_def)
    show "length (excuteList ?s2) = length (pending ?s2) + length (filter chain_job (jobs ?s2))"
      using sequentialD(4)[OF sq] by simp
    show "\<And>r p. (r, p) \<in> set (head_list ?s2) \<Longrightarrow> head_ok ?s2 r p"
      using sequentialD(5)[OF sq]
      by (fastforce simp: hl head_ok_def isBeforePause_def)
    show "pids_ok ?s2" using sequentialD(6)[OF sq] by (auto simp: pids_ok_def less_Suc_eq)
    show "pause_inv ?s2" using sequentialD(7)[OF sq]
      by (subst pause_inv_frame[of _ s]) (simp_all add: isBeforePause_def)
  qed
  show ?thesis
  proof (cases "immediate (options s)")
    case True
    then have "\<not> isBeforePause ?s2" using g by (simp add: isBeforePause_def)
    from sequential_exec[OF s2 this] show ?thesis using True by (simp add: p)
  next
    case False
    then show ?thesis using s2 by (simp add: p)
  qed
qed

lemma sequential_settle: "sequential s \<Longrightarrow> sequential (settle k s)"
proof -
  assume sq: "sequential s"
  have "length (pending s) \<le> 1" using sequentialD(1)[OF sq] by (simp add: head_list_def)
  then consider "pending s = []" | x where "pending s = [x]"
    by (cases "pending s") (auto simp: Suc_le_eq)
  then show ?thesis
  proof cases
    case 1 then show ?thesis using sq by (simp add: settle_def)
  next
    case 2
    obtain r p b where x: "x = (r, p, b)" by (cases x)
    show ?thesis
    proof (cases k)
      case (Suc n)
      then show ?thesis using sq 2 by (simp add: settle_def)
    next
      case 0
      let ?s' = "s\<lparr>pending := [], jobs := jobs s @ [ThenJob r p b]\<rparr>"
      have e: "settle k s = ?s'"
        using 2 x 0 by (simp add: settle_def enqueue_def)
      have hs: "head_list s = [(r, p)] @
                  List.map_filter (head_pid (continueWhenError (options s))) (jobs s)"
        using 2 x by (simp add: head_list_def)
      with sequentialD(1)[OF sq]
      have nh: "List.map_filter (head_pid (continueWhenError (options s))) (jobs s) = []"
        by simp
      have hl: "head_list ?s' = [(r, p)]" "head_list s = [(r, p)]"
        using nh hs by (simp_all add: head_list_def map_filter_append)
      have ok: "head_ok s r p" using sequentialD(5)[OF sq, of r p] hl by simp
      have "sequential ?s'"
      proof (rule sequentialI)
        show "length (head_list ?s') \<le> 1" by (simp add: hl)
        show "\<And>x. task_status (store ?s' x) = STATUS_PEDDING \<Longrightarrow> x \<in> set (unsettled ?s')"
          using sequentialD(2)[OF sq] 2 x by (auto simp: unsettled_def map_filter_append)
        show "\<not> isRunning ?s' \<Longrightarrow> \<not> isBeforePause ?s' \<Longrightarrow> head_list ?s' = []"
          using sequentialD(3)[OF sq] hl by (simp add: isRunning_def isBeforePause_def)
        show "length (excuteList ?s') =
                length (pending ?s') + length (filter chain_job (jobs ?s'))"
          using sequentialD(4)[OF sq] 2 by simp
        show "\<And>r' p'. (r', p') \<in> set (head_list ?s') \<Longrightarrow> head_ok ?s' r' p'"
          using ok by (auto simp: hl head_ok_def isBeforePause_def)
        show "pids_ok ?s'" using sequentialD(6)[OF sq] 2 x by (auto simp: pids_ok_def)
        show "pause_inv ?s'" using sequentialD(7)[OF sq]
          by (subst pause_inv_frame[of _ s]) (simp_all add: isBeforePause_def)
      qed
      then show ?thesis by (simp add: e)
    qed
  qed
qed


lemma fold_all_element:
  "\<exists>rx js'. fold (all_element a) rs s = s\<lparr>reactions := reactions s @ rx, jobs := jobs s @ js'\<rparr> \<and>
     (\<forall>x \<in> set rx. snd x = a) \<and> (\<forall>j \<in> set js'. j = AllElemJob a) \<and>
     length rx + length js' = length rs \<and>
     (\<forall>r \<in> set rs. \<forall>p. excutePromise (store s r) = Some p \<longrightarrow> p \<notin> set (fulfilled s) \<longrightarrow>
         (p, a) \<in> set rx)"
proof (induction rs arbitrary: s)
  case Nil
  show ?case by (intro exI[of _ "[]"]) simp
next
  case (Cons r rs)
  consider (job') "\<forall>p. excutePromise (store s r) = Some p \<longrightarrow> p \<in> set (fulfilled s)"
    | (react') p where "excutePromise (store s r) = Some p" "p \<notin> set (fulfilled s)"
    by (cases "excutePromise (store s r)") auto
  then consider (job) "all_element a r s = s\<lparr>jobs := jobs s @ [AllElemJob a]\<rparr>"
      "\<forall>p. excutePromise (store s r) = Some p \<longrightarrow> p \<in> set (fulfilled s)"
    | (react) p where "all_element a r s = s\<lparr>reactions := reactions s @ [(p, a)]\<rparr>"
      "excutePromise (store s r) = Some p"
  proof cases
    case job'
    then have "all_element a r s = s\<lparr>jobs := jobs s @ [AllElemJob a]\<rparr>"
      by (cases "excutePromise (store s r)") (simp_all add: all_element_def enqueue_def)
    then show ?thesis using job' that(1) by blast
  next
    case react'
    then have "all_element a r s = s\<lparr>reactions := reactions s @ [(p, a)]\<rparr>"
      by (simp add: all_element_def)
    then show ?thesis using react' that(2) by blast
  qed
  then show ?case
  proof cases
    case job
    from Cons.IH[of "s\<lparr>jobs := jobs s @ [AllElemJob a]\<rparr>"]
    obtain rx js' where ih:
      "fold (all_element a) rs (s\<lparr>jobs := jobs s @ [AllElemJob a]\<rparr>) =
         s\<lparr>jobs := jobs s @ [AllElemJob a], reactions := reactions s @ rx,
           jobs := (jobs s @ [AllElemJob a]) @ js'\<rparr>"
      "\<forall>x \<in> set rx. snd x = a" "\<forall>j \<in> set js'. j = AllElemJob a"
      "length rx + length js' = length rs"
      "\<forall>r \<in> set rs. \<forall>p. excutePromise (store s r) = Some p \<longrightarrow> p \<notin> set (fulfilled s) \<longrightarrow>
         (p, a) \<in> set rx"
      by auto
    show ?thesis
      using ih job
      by (intro exI[of _ rx] exI[of _ "AllElemJob a # js'"]) auto
  next
    case react
    from Cons.IH[of "s\<lparr>reactions := reactions s @ [(p, a)]\<rparr>"]
    obtain rx js' where ih:
      "fold (all_element a) rs (s\<lparr>reactions := reactions s @ [(p, a)]\<rparr>) =
         s\<lparr>reactions := reactions s @ [(p, a)], reactions := (reactions s @ [(p, a)]) @ rx,
           jobs := jobs s @ js'\<rparr>"
      "\<forall>x \<in> set rx. snd x = a" "\<forall>j \<in> set js'. j = AllElemJob a"
      "length rx + length js' = length rs"
      "\<forall>r \<in> set rs. \<forall>p. excutePromise (store s r) = Some p \<longrightarrow> p \<notin> set (fulfilled s) \<longrightarrow>
         (p, a) \<in> set rx"
      by auto
    show ?thesis
      using ih react
      by (intro exI[of _ "(p, a) # rx"] exI[of _ js']) auto
  qed
qed

lemma elem_jobs:
  assumes "\<forall>j \<in> set js. j = AllElemJob a"
  shows "filter pause_job js = js" "filter elem_job js = js" "filter chain_job js = []"
    "List.map_filter (head_pid c) js = []" "List.map_filter unsettled_task js = []"
    "\<And>j p. j \<in> set js \<Longrightarrow> job_pid j \<noteq> Some p" "PauseFinallyJob \<notin> set js"
  using assms by (auto simp: mf_Nil_iff filter_id_conv filter_empty_conv)

lemma sequential_pause: "sequential s \<Longrightarrow> sequential (pause s)"
proof (cases "isRunning s")
  case False
  assume "sequential s"
  then show ?thesis using False by (simp add: pause_def)
next
  case True
  assume sq: "sequential s"
  let ?a = "next_aid s"
  let ?s2 = "s\<lparr>status := STATUS_QUEUE_BEFORE_PAUSE, next_aid := Suc ?a,
                remaining := (remaining s)(?a := length (excuteList s))\<rparr>"
  have nb: "\<not> isBeforePause s" using True by (simp add: isRunning_def isBeforePause_def)
  note idle = pause_invD_idle[OF sequentialD(7)[OF sq] nb]
  from fold_all_element[of ?a "excuteList s" ?s2]
  obtain rx js' where f:
    "fold (all_element ?a) (excuteList s) ?s2 = ?s2\<lparr>reactions := rx, jobs := jobs s @ js'\<rparr>"
    and rx: "\<forall>x \<in> set rx. snd x = ?a" and js': "\<forall>j \<in> set js'. j = AllElemJob ?a"
    and len: "length rx + length js' = length (excuteList s)"
    and reg: "\<forall>r \<in> set (excuteList s). \<forall>p. excutePromise (store s r) = Some p \<longrightarrow>
                p \<notin> set (fulfilled s) \<longrightarrow> (p, ?a) \<in> set rx"
    using idle(1) by auto
  note ej = elem_jobs[OF js']
  define extra where "extra = (if excuteList s = [] then [PauseFinallyJob] else [])"
  let ?s' = "?s2\<lparr>reactions := rx, jobs := jobs s @ js' @ extra\<rparr>"
  have p: "pause s = ?s'"
  proof (cases "excuteList s = []")
    case e: True
    then have "rx = []" "js' = []" using len by simp_all
    then show ?thesis using True e idle(1)
      by (simp add: pause_def Let_def enqueue_def extra_def)
  next
    case e: False
    then show ?thesis using True f
      by (simp add: pause_def Let_def enqueue_def extra_def)
  qed
  have ex: "List.map_filter (head_pid c) extra = []" "filter chain_job extra = []"
    "List.map_filter unsettled_task extra = []" "\<And>j p. j \<in> set extra \<Longrightarrow> job_pid j \<noteq> Some p"
    "filter elem_job extra = []" "filter pause_job extra = extra" for c
    by (simp_all add: extra_def)
  have hl: "head_list ?s' = head_list s"
    by (simp add: head_list_def map_filter_append ej ex)
  have "sequential ?s'"
  proof (rule sequentialI)
    show "length (head_list ?s') \<le> 1" using sequentialD(1)[OF sq] by (simp add: hl)
    show "\<And>x. task_status (store ?s' x) = STATUS_PEDDING \<Longrightarrow> x \<in> set (unsettled ?s')"
      using sequentialD(2)[OF sq] by (simp add: unsettled_def map_filter_append ej ex)
    show "\<not> isRunning ?s' \<Longrightarrow> \<not> isBeforePause ?s' \<Longrightarrow> head_list ?s' = []"
      by (simp add: isBeforePause_def)
    show "length (excuteList ?s') =
            length (pending ?s') + length (filter chain_job (jobs ?s'))"
      using sequentialD(4)[OF sq] by (simp add: ej ex)
    show "pids_ok ?s'" using sequentialD(6)[OF sq] ej(6) ex(4)
      by (auto simp: pids_ok_def)
    show "\<And>r p. (r, p) \<in> set (head_list ?s') \<Longrightarrow> head_ok ?s' r p"
    proof -
      fix r p assume "(r, p) \<in> set (head_list ?s')"
      then have in_s: "(r, p) \<in> set (head_list s)" by (simp add: hl)
      then have ok: "head_ok s r p" by (rule sequentialD(5)[OF sq])
      have "0 < length (head_list s)" using in_s by (cases "head_list s") auto
      also have "\<dots> \<le> length (pending s) + length (filter chain_job (jobs s))"
        using heads_le_chains[of "continueWhenError (options s)" "jobs s"]
        by (simp add: head_list_def)
      finally have "excuteList s \<noteq> []" using sequentialD(4)[OF sq] by auto
      then have "r \<in> set (excuteList s)" using ok by (auto simp: head_ok_def)
      then have "(p, ?a) \<in> set rx" using reg ok by (auto simp: head_ok_def)
      then show "head_ok ?s' r p"
        using ok ej(6) ex(4) by (auto simp: head_ok_def)
    qed
    show "pause_inv ?s'"
    proof (cases "excuteList s = []")
      case True
      then have "rx = []" "js' = []" using len by simp_all
      then show ?thesis using idle True
        by (simp add: pause_inv_def isBeforePause_def extra_def)
    next
      case False
      then have "0 < length rx + length js'" using len by simp
      then show ?thesis using idle False rx js' len ej
        by (auto simp: pause_inv_def isBeforePause_def extra_def pause_count_def)
    qed
  qed
  then show ?thesis by (simp add: p)
qed


text \<open>The job at the front of the queue is the head of the chain in progress.\<close>

lemma front_head:
  assumes sq: "sequential s" and j: "jobs s = j # js"
    and hj: "head_pid (continueWhenError (options s)) j = Some (r, p)"
  shows "pending s = []"
    "List.map_filter (head_pid (continueWhenError (options s))) js = []"
    "List.map_filter unsettled_task js = []"
    "head_list s = [(r, p)]" "head_ok s r p"
    "isRunning s \<or> isBeforePause s"
    "\<And>x. task_status (store s x) = STATUS_PEDDING \<Longrightarrow> x = r"
proof -
  have "length (pending s) +
          Suc (length (List.map_filter (head_pid (continueWhenError (options s))) js)) \<le> 1"
    using sequentialD(1)[OF sq] j hj by (simp add: head_list_def)
  then show a: "pending s = []"
    and b: "List.map_filter (head_pid (continueWhenError (options s))) js = []"
    by simp_all
  show c: "List.map_filter unsettled_task js = []"
  proof -
    have "unsettled_task x = None" if "x \<in> set js" for x
      using b that unsettled_is_head[of x _ "continueWhenError (options s)"]
      by (cases "unsettled_task x") (auto simp: mf_Nil_iff)
    then show ?thesis by (simp add: mf_Nil_iff)
  qed
  show d: "head_list s = [(r, p)]" using a b j hj by (simp add: head_list_def)
  then show "head_ok s r p" using sequentialD(5)[OF sq, of r p] by simp
  show "isRunning s \<or> isBeforePause s" using sequentialD(3)[OF sq] d by auto
  show "\<And>x. task_status (store s x) = STATUS_PEDDING \<Longrightarrow> x = r"
    using sequentialD(2)[OF sq] unsettled_sub_heads[of s] d by fastforce
qed

lemma sequential_head_step:
  assumes sq: "sequential s" and j: "jobs s = j # js"
    and hj: "head_pid (continueWhenError (options s)) j = Some (r, p)"
    and hj': "head_pid (continueWhenError (options s)) j' = Some (r, p)"
    and st: "\<And>x. x \<noteq> r \<Longrightarrow> st x = store s x"
      "excutePromise (st r) = excutePromise (store s r)"
      "task_status (st r) = STATUS_PEDDING \<Longrightarrow> unsettled_task j' = Some r"
  shows "sequential (s\<lparr>jobs := js @ [j'], store := st, trace := tr\<rparr>)" (is "sequential ?s'")
proof -
  note fh = front_head[OF sq j hj]
  note c = head_is_chain[OF hj] head_is_chain[OF hj']
  have hl: "head_list ?s' = [(r, p)]"
    using fh(1,2) hj' by (simp add: head_list_def map_filter_append)
  have js: "set js \<subseteq> set (jobs s)" using j by auto
  show ?thesis
  proof (rule sequentialI)
    show "length (head_list ?s') \<le> 1" by (simp add: hl)
    show "\<And>x. task_status (store ?s' x) = STATUS_PEDDING \<Longrightarrow> x \<in> set (unsettled ?s')"
    proof -
      fix x assume x: "task_status (store ?s' x) = STATUS_PEDDING"
      show "x \<in> set (unsettled ?s')"
      proof (cases "x = r")
        case True
        then show ?thesis using x st(3) by (simp add: unsettled_def map_filter_append)
      next
        case False
        then have "task_status (store s x) = STATUS_PEDDING" using x st(1) by simp
        then show ?thesis using fh(7) False by blast
      qed
    qed
    show "\<not> isRunning ?s' \<Longrightarrow> \<not> isBeforePause ?s' \<Longrightarrow> head_list ?s' = []"
      using fh(6) by (simp add: isRunning_def isBeforePause_def)
    show "length (excuteList ?s') = length (pending ?s') + length (filter chain_job (jobs ?s'))"
      using sequentialD(4)[OF sq] j c by simp
    show "\<And>r' p'. (r', p') \<in> set (head_list ?s') \<Longrightarrow> head_ok ?s' r' p'"
      using fh(5) js st(2) hj'
      by (auto simp: hl head_ok_def isBeforePause_def)
    show "pids_ok ?s'" using sequentialD(6)[OF sq] j c
      by (auto simp: pids_ok_def)
    show "pause_inv ?s'" using sequentialD(7)[OF sq] j c
      by (subst pause_inv_frame[of _ s]) (simp_all add: isBeforePause_def)
  qed
qed

lemma sequential_head_dies:
  assumes sq: "sequential s" and j: "jobs s = j # js"
    and hj: "head_pid (continueWhenError (options s)) j = Some (r, p)"
    and hj': "head_pid (continueWhenError (options s)) j' = None" "chain_job j'"
      "job_pid j' = Some p" "\<not> pause_job j'"
    and st: "\<And>x. x \<noteq> r \<Longrightarrow> st x = store s x" "task_status (st r) \<noteq> STATUS_PEDDING"
  shows "sequential (s\<lparr>jobs := js @ [j'], store := st, trace := tr\<rparr>)" (is "sequential ?s'")
proof -
  note fh = front_head[OF sq j hj]
  note c = head_is_chain[OF hj]
  have hl: "head_list ?s' = []"
    using fh(1,2) hj'(1) by (simp add: head_list_def map_filter_append)
  show ?thesis
  proof (rule sequentialI)
    show "length (head_list ?s') \<le> 1" by (simp add: hl)
    show "\<And>x. task_status (store ?s' x) = STATUS_PEDDING \<Longrightarrow> x \<in> set (unsettled ?s')"
    proof -
      fix x assume x: "task_status (store ?s' x) = STATUS_PEDDING"
      then have "x \<noteq> r" using st(2) by auto
      then have "task_status (store s x) = STATUS_PEDDING" using x st(1) by simp
      then show "x \<in> set (unsettled ?s')" using fh(7) \<open>x \<noteq> r\<close> by blast
    qed
    show "\<not> isRunning ?s' \<Longrightarrow> \<not> isBeforePause ?s' \<Longrightarrow> head_list ?s' = []"
      by (simp add: hl)
    show "length (excuteList ?s') = length (pending ?s') + length (filter chain_job (jobs ?s'))"
      using sequentialD(4)[OF sq] j c hj'(2) by simp
    show "\<And>r' p'. (r', p') \<in> set (head_list ?s') \<Longrightarrow> head_ok ?s' r' p'"
      by (simp add: hl)
    show "pids_ok ?s'" using sequentialD(6)[OF sq] j c hj'(3)
      by (auto simp: pids_ok_def)
    show "pause_inv ?s'" using sequentialD(7)[OF sq] j c hj'(4)
      by (subst pause_inv_frame[of _ s]) (simp_all add: isBeforePause_def)
  qed
qed

lemma sequential_tail_step:
  assumes sq: "sequential s" and j: "jobs s = j # js"
    and nh: "head_pid (continueWhenError (options s)) j = None" and np: "\<not> pause_job j"
    and new: "\<And>x. x \<in> set new \<Longrightarrow>
        head_pid (continueWhenError (options s)) x = None \<and> \<not> pause_job x \<and>
        (\<forall>q. job_pid x = Some q \<longrightarrow> job_pid j = Some q)"
    and cnt: "length (filter chain_job new) + dr = (if chain_job j then 1 else 0)"
  shows "sequential (s\<lparr>jobs := js @ new, excuteList := drop dr (excuteList s),
                       finishList := fl\<rparr>)" (is "sequential ?s'")
proof -
  let ?c = "continueWhenError (options s)"
  have n1: "List.map_filter (head_pid ?c) new = []" using new by (simp add: mf_Nil_iff)
  have n2: "filter pause_job new = []" using new by simp
  have n3: "List.map_filter unsettled_task new = []"
  proof -
    have "unsettled_task x = None" if "x \<in> set new" for x
      using new[OF that] unsettled_is_head[of x _ ?c] by (cases "unsettled_task x") auto
    then show ?thesis by (simp add: mf_Nil_iff)
  qed
  have uj: "unsettled_task j = None"
    using nh unsettled_is_head[of j _ ?c] by (cases "unsettled_task j") auto
  have hl: "head_list ?s' = head_list s"
    using nh n1 j by (simp add: head_list_def map_filter_append)
  have un: "unsettled ?s' = unsettled s"
    using uj n3 j by (simp add: unsettled_def map_filter_append)
  have heads: "length (head_list s) \<le> length (pending s) + length (filter chain_job js)"
    using heads_le_chains[of ?c js] nh j by (simp add: head_list_def)
  have len: "length (excuteList s) =
               length (pending s) + (if chain_job j then 1 else 0) + length (filter chain_job js)"
    using sequentialD(4)[OF sq] j by simp
  show ?thesis
  proof (rule sequentialI)
    show "length (head_list ?s') \<le> 1" using sequentialD(1)[OF sq] by (simp add: hl)
    show "\<And>x. task_status (store ?s' x) = STATUS_PEDDING \<Longrightarrow> x \<in> set (unsettled ?s')"
      using sequentialD(2)[OF sq] by (simp add: un)
    show "\<not> isRunning ?s' \<Longrightarrow> \<not> isBeforePause ?s' \<Longrightarrow> head_list ?s' = []"
      using sequentialD(3)[OF sq] by (simp add: hl isRunning_def isBeforePause_def)
    show "length (excuteList ?s') = length (pending ?s') + length (filter chain_job (jobs ?s'))"
      using len cnt by (auto split: if_splits)
    show "\<And>r p. (r, p) \<in> set (head_list ?s') \<Longrightarrow> head_ok ?s' r p"
    proof -
      fix r p assume "(r, p) \<in> set (head_list ?s')"
      then have in_s: "(r, p) \<in> set (head_list s)" by (simp add: hl)
      then have ok: "head_ok s r p" by (rule sequentialD(5)[OF sq])
      have "Suc 0 \<le> length (head_list s)" using in_s by (cases "head_list s") auto
      with heads have "Suc 0 \<le> length (pending s) + length (filter chain_job js)"
        by linarith
      then have two: "dr = 0 \<or> Suc (Suc 0) \<le> length (excuteList s)"
        using len cnt by (auto split: if_splits)
      then have la: "last (drop dr (excuteList s)) = last (excuteList s)"
        using cnt by (cases dr) (auto simp: last_drop1 split: if_splits)
      have "job_pid j \<noteq> Some p" using ok nh j by (auto simp: head_ok_def)
      then have "\<And>x. x \<in> set new \<Longrightarrow> job_pid x \<noteq> Some p" using new by fastforce
      then show "head_ok ?s' r p"
        using ok la j by (auto simp: head_ok_def isBeforePause_def)
    qed
    show "pids_ok ?s'"
    proof -
      have "\<And>x q. x \<in> set new \<Longrightarrow> job_pid x = Some q \<Longrightarrow> q < next_pid s"
        using new sequentialD(6)[OF sq] j by (fastforce simp: pids_ok_def)
      then show ?thesis using sequentialD(6)[OF sq] j by (auto simp: pids_ok_def)
    qed
    show "pause_inv ?s'" using sequentialD(7)[OF sq] j np n2
      by (subst pause_inv_frame[of _ s]) (simp_all add: isBeforePause_def)
  qed
qed


lemma elem_pause: "(pause_job x \<and> elem_job x) = elem_job x"
  by (cases x) auto

lemma pause_jobs_cases:
  "pause_job j \<Longrightarrow> j = PauseFinallyJob \<or> (\<exists>a. j = AllElemJob a)"
  by (cases j) auto

lemma sequential_fulfil:
  assumes sq: "sequential s" and j: "jobs s = FulfilJob p # js"
  shows "sequential (s\<lparr>fulfilled := fulfilled s @ [p],
                       reactions := filter (\<lambda>(q, a). q \<noteq> p) (reactions s),
                       jobs := js @ map (\<lambda>(q, a). AllElemJob a)
                                      (filter (\<lambda>(q, a). q = p) (reactions s))\<rparr>)"
    (is "sequential ?s'")
proof -
  let ?c = "continueWhenError (options s)"
  let ?hit = "filter (\<lambda>(q, a). q = p) (reactions s)"
  let ?new = "map (\<lambda>(q, a). AllElemJob a) ?hit"
  have n: "List.map_filter (head_pid ?c) ?new = []" "List.map_filter unsettled_task ?new = []"
    "filter chain_job ?new = []" "\<And>x q. x \<in> set ?new \<Longrightarrow> job_pid x \<noteq> Some q"
    "filter pause_job ?new = ?new" "filter elem_job ?new = ?new" "PauseFinallyJob \<notin> set ?new"
    by (auto simp: mf_Nil_iff filter_empty_conv filter_id_conv)
  have hl: "head_list ?s' = head_list s"
    using n(1) j by (simp add: head_list_def map_filter_append)
  have un: "unsettled ?s' = unsettled s"
    using n(2) j by (simp add: unsettled_def map_filter_append)
  have split: "length (filter (\<lambda>(q, a). q \<noteq> p) xs) + length (filter (\<lambda>(q, a). q = p) xs)
                 = length xs" for xs :: "(pid \<times> aid) list"
    by (induction xs) auto
  show ?thesis
  proof (rule sequentialI)
    show "length (head_list ?s') \<le> 1" using sequentialD(1)[OF sq] by (simp add: hl)
    show "\<And>x. task_status (store ?s' x) = STATUS_PEDDING \<Longrightarrow> x \<in> set (unsettled ?s')"
      using sequentialD(2)[OF sq] by (simp add: un)
    show "\<not> isRunning ?s' \<Longrightarrow> \<not> isBeforePause ?s' \<Longrightarrow> head_list ?s' = []"
      using sequentialD(3)[OF sq] by (simp add: hl isRunning_def isBeforePause_def)
    show "length (excuteList ?s') = length (pending ?s') + length (filter chain_job (jobs ?s'))"
      using sequentialD(4)[OF sq] j n(3) by simp
    show "\<And>r q. (r, q) \<in> set (head_list ?s') \<Longrightarrow> head_ok ?s' r q"
    proof -
      fix r q assume "(r, q) \<in> set (head_list ?s')"
      then have ok: "head_ok s r q" using sequentialD(5)[OF sq, of r q] by (simp add: hl)
      then have "q \<noteq> p" using j by (auto simp: head_ok_def)
      then show "head_ok ?s' r q"
        using ok n(4) j by (auto simp: head_ok_def isBeforePause_def)
    qed
    show "pids_ok ?s'" using sequentialD(6)[OF sq] j n(4)
      by (auto simp: pids_ok_def)
    show "pause_inv ?s'"
    proof (cases "isBeforePause s")
      case False
      then show ?thesis using pause_invD_idle[OF sequentialD(7)[OF sq] False] j
        by (intro pause_inv_idle) (simp_all add: isBeforePause_def)
    next
      case True
      have pi: "pause_inv s" by (rule sequentialD(7)[OF sq])
      have f: "filter pause_job (jobs ?s') = filter pause_job (jobs s) @ ?new"
        using j n(5) by simp
      have ids: "\<forall>x \<in> set ?new. x = AllElemJob (next_aid s - 1)"
        using pi True by (auto simp: pause_inv_def)
      show ?thesis
      proof (cases "PauseFinallyJob \<in> set (filter pause_job (jobs s))")
        case pf: True
        then have "reactions s = []" using pi True by (simp add: pause_inv_def)
        then show ?thesis using pi True pf j
          by (simp add: pause_inv_def isBeforePause_def pause_count_def)
      next
        case pf: False
        have cnt: "pause_count ?s' = pause_count s"
          using split[of "reactions s"] n(6) j by (simp add: pause_count_def elem_pause)
        have "PauseFinallyJob \<notin> set (filter pause_job (jobs ?s'))"
          using pf n(7) unfolding f by simp
        moreover have "\<forall>x \<in> set (filter pause_job (jobs ?s')).
                         x = PauseFinallyJob \<or> x = AllElemJob (next_aid s - 1)"
          using pi True ids unfolding f by (auto simp: pause_inv_def)
        moreover have "\<forall>(q, a) \<in> set (reactions ?s'). a = next_aid s - 1"
          using pi True by (auto simp: pause_inv_def)
        moreover have "0 < pause_count ?s' \<and> remaining s (next_aid s - 1) = pause_count ?s'"
          using pi True pf unfolding cnt by (simp add: pause_inv_def)
        ultimately show ?thesis
          using True by (simp add: pause_inv_def isBeforePause_def)
      qed
    qed
  qed
qed

lemma sequential_all_elem:
  assumes sq: "sequential s" and j: "jobs s = AllElemJob a # js"
  shows "sequential (run_job (AllElemJob a) (s\<lparr>jobs := js\<rparr>))"
proof -
  let ?c = "continueWhenError (options s)"
  have pi: "pause_inv s" by (rule sequentialD(7)[OF sq])
  have bp: "isBeforePause s" using pi j by (auto simp: pause_inv_def)
  have a: "a = next_aid s - 1" using pi bp j by (auto simp: pause_inv_def)
  have npf: "PauseFinallyJob \<notin> set (filter pause_job (jobs s))"
    using pi bp j by (auto simp: pause_inv_def)
  then have npf': "PauseFinallyJob \<notin> set js" using j by auto
  have rem: "remaining s a = Suc (length (reactions s) +
                                   length (filter elem_job (filter pause_job js)))"
    using pi bp npf j a by (simp add: pause_inv_def pause_count_def)
  define n where "n = remaining s a - 1"
  define extra where "extra = (if n = 0 then [PauseFinallyJob] else [])"
  let ?s' = "s\<lparr>jobs := js @ extra, remaining := (remaining s)(a := n)\<rparr>"
  have e: "run_job (AllElemJob a) (s\<lparr>jobs := js\<rparr>) = ?s'"
    by (simp add: Let_def enqueue_def extra_def n_def)
  have n: "n = length (reactions s) + length (filter elem_job (filter pause_job js))"
    using rem by (simp add: n_def)
  have ex: "List.map_filter (head_pid ?c) extra = []" "filter chain_job extra = []"
    "List.map_filter unsettled_task extra = []" "\<And>x q. x \<in> set extra \<Longrightarrow> job_pid x \<noteq> Some q"
    "filter elem_job extra = []" "filter pause_job extra = extra"
    by (simp_all add: extra_def)
  have hl: "head_list ?s' = head_list s"
    using ex(1) j by (simp add: head_list_def map_filter_append)
  have un: "unsettled ?s' = unsettled s"
    using ex(3) j by (simp add: unsettled_def map_filter_append)
  have "sequential ?s'"
  proof (rule sequentialI)
    show "length (head_list ?s') \<le> 1" using sequentialD(1)[OF sq] by (simp add: hl)
    show "\<And>x. task_status (store ?s' x) = STATUS_PEDDING \<Longrightarrow> x \<in> set (unsettled ?s')"
      using sequentialD(2)[OF sq] by (simp add: un)
    show "\<not> isRunning ?s' \<Longrightarrow> \<not> isBeforePause ?s' \<Longrightarrow> head_list ?s' = []"
      using sequentialD(3)[OF sq] by (simp add: hl isRunning_def isBeforePause_def)
    show "length (excuteList ?s') = length (pending ?s') + length (filter chain_job (jobs ?s'))"
      using sequentialD(4)[OF sq] j ex(2) by simp
    show "\<And>r q. (r, q) \<in> set (head_list ?s') \<Longrightarrow> head_ok ?s' r q"
    proof -
      fix r q assume "(r, q) \<in> set (head_list ?s')"
      then have ok: "head_ok s r q" using sequentialD(5)[OF sq, of r q] by (simp add: hl)
      then show "head_ok ?s' r q"
        using ex(4) j by (auto simp: head_ok_def isBeforePause_def)
    qed
    show "pids_ok ?s'" using sequentialD(6)[OF sq] j ex(4)
      by (auto simp: pids_ok_def)
    show "pause_inv ?s'"
    proof (cases "n = 0")
      case True
      then have z: "reactions s = []" "filter elem_job (filter pause_job js) = []"
        using n by simp_all
      have "filter pause_job js = []"
      proof -
        have "\<not> pause_job x" if "x \<in> set js" for x
        proof
          assume "pause_job x"
          then consider "x = PauseFinallyJob" | b where "x = AllElemJob b"
            using pause_jobs_cases by blast
          then show False
          proof cases
            case 1 then show False using npf' that by simp
          next
            case 2
            then have "x \<in> set js" "elem_job x" using that by simp_all
            moreover have "filter elem_job js = []" using z(2) by (simp add: elem_pause)
            ultimately show False by (simp add: filter_empty_conv)
          qed
        qed
        then show ?thesis by (simp add: filter_empty_conv)
      qed
      then show ?thesis using True z bp
        by (simp add: pause_inv_def isBeforePause_def extra_def)
    next
      case False
      have "filter pause_job (jobs ?s') = filter pause_job js" using False by (simp add: extra_def)
      moreover have "set (filter pause_job js) \<subseteq> set (filter pause_job (jobs s))"
        using j by auto
      ultimately show ?thesis using False pi bp npf n a
        by (auto simp: pause_inv_def isBeforePause_def pause_count_def)
    qed
  qed
  then show ?thesis by (simp only: e)
qed

lemma sequential_pause_finally:
  assumes sq: "sequential s" and j: "jobs s = PauseFinallyJob # js"
  shows "sequential (run_job PauseFinallyJob (s\<lparr>jobs := js\<rparr>))"
proof -
  have pi: "pause_inv s" by (rule sequentialD(7)[OF sq])
  have bp: "isBeforePause s" using pi j by (auto simp: pause_inv_def)
  have z: "reactions s = []" "filter pause_job js = []"
    using pi bp j by (simp_all add: pause_inv_def)
  have h: "head_list s = []"
  proof (cases "head_list s")
    case (Cons x xs)
    obtain r p where "x = (r, p)" by (cases x)
    then have "head_ok s r p" using sequentialD(5)[OF sq, of r p] Cons by simp
    then show ?thesis using bp z(1) by (simp add: head_ok_def)
  qed simp
  define qs tr where "qs = (if waitList s = [] then STATUS_QUEUE_FINISH else STATUS_QUEUE_PAUSE)"
    and "tr = trace s @ [if waitList s = [] then EVENT_QUEUE_FINISH [] (finishList s)
                         else EVENT_QUEUE_PAUSE (waitList s) (finishList s)]"
  let ?s' = "s\<lparr>jobs := js, status := qs, trace := tr\<rparr>"
  have e: "run_job PauseFinallyJob (s\<lparr>jobs := js\<rparr>) = ?s'"
    by (simp add: Let_def emit_def qs_def tr_def)
  have nb: "\<not> isBeforePause ?s'" by (simp add: isBeforePause_def qs_def)
  have hl: "head_list ?s' = []" using h j by (simp add: head_list_def)
  have "sequential ?s'"
  proof (rule sequentialI)
    show "length (head_list ?s') \<le> 1" by (simp add: hl)
    show "\<And>x. task_status (store ?s' x) = STATUS_PEDDING \<Longrightarrow> x \<in> set (unsettled ?s')"
      using no_pending_idle[OF sq h] by simp
    show "\<not> isRunning ?s' \<Longrightarrow> \<not> isBeforePause ?s' \<Longrightarrow> head_list ?s' = []" by (simp add: hl)
    show "length (excuteList ?s') = length (pending ?s') + length (filter chain_job (jobs ?s'))"
      using sequentialD(4)[OF sq] j by simp
    show "\<And>r q. (r, q) \<in> set (head_list ?s') \<Longrightarrow> head_ok ?s' r q" by (simp add: hl)
    show "pids_ok ?s'" using sequentialD(6)[OF sq] j by (auto simp: pids_ok_def)
    show "pause_inv ?s'" using z nb by (intro pause_inv_idle) simp_all
  qed
  then show ?thesis by (simp only: e)
qed


lemma sequential_microtask: "sequential s \<Longrightarrow> sequential (microtask s)"
proof (cases "jobs s")
  case Nil
  assume "sequential s"
  then show ?thesis using Nil by (simp add: microtask_def)
next
  case (Cons j js)
  assume sq: "sequential s"
  let ?c = "continueWhenError (options s)"
  let ?s0 = "s\<lparr>jobs := js\<rparr>"
  have m: "microtask s = run_job j ?s0" using Cons by (simp add: microtask_def)
  have start: "sequential ((next_task t)\<lparr>excuteList := drop dr (excuteList (next_task t)),
                                         jobs := jobs (next_task t) @ extra\<rparr>)"
    if hj: "head_pid ?c j = Some (r, p)"
      and t: "jobs t = js" "pending t = pending s" "options t = options s"
        "excuteList t = excuteList s" "status t = status s" "reactions t = reactions s"
        "next_aid t = next_aid s" "remaining t = remaining s" "next_pid t = next_pid s"
        "fulfilled t = fulfilled s" "waitList t = waitList s" "next_ref t = next_ref s"
      and np: "\<And>x. task_status (store t x) \<noteq> STATUS_PEDDING"
      and ex: "\<And>x. x \<in> set extra \<Longrightarrow> head_pid ?c x = None \<and> \<not> pause_job x \<and>
                 (\<forall>q. job_pid x = Some q \<longrightarrow> q = p)"
      and d: "length (filter chain_job extra) + dr = 1"
    for t r p extra dr
  proof (rule sequential_start[where d = 1])
    note fh = front_head[OF sq Cons hj]
    note c = head_is_chain[OF hj]
    show "pending t = []" using fh(1) t by simp
    show "List.map_filter (head_pid (continueWhenError (options t))) (jobs t) = []"
      using fh(2) t by simp
    show "\<And>x. task_status (store t x) \<noteq> STATUS_PEDDING" by (rule np)
    show "pids_ok t" using sequentialD(6)[OF sq] Cons t by (auto simp: pids_ok_def)
    show "pause_inv t" using sequentialD(7)[OF sq] Cons c t
      by (subst pause_inv_frame[of _ s]) (simp_all add: isBeforePause_def)
    show "isRunning t \<or> isBeforePause t" using fh(6) t by (simp add: isRunning_def isBeforePause_def)
    show "length (excuteList t) = length (filter chain_job (jobs t)) + 1"
      using sequentialD(4)[OF sq] Cons c fh(1) t by simp
    have "p < next_pid s" using sequentialD(6)[OF sq] Cons c by (auto simp: pids_ok_def)
    then show "\<And>x. x \<in> set extra \<Longrightarrow> head_pid (continueWhenError (options t)) x = None \<and>
            \<not> pause_job x \<and> (\<forall>q. job_pid x = Some q \<longrightarrow> q < next_pid t)"
      using ex t by auto
    show "length (filter chain_job extra) + dr = 1" by (rule d)
  qed
  show ?thesis
  proof (cases j)
    case (ThenJob r p b)
    then have hj: "head_pid ?c j = Some (r, p)" by simp
    note fh = front_head[OF sq Cons hj]
    show ?thesis
    proof (cases b)
      case False
      have "sequential (s\<lparr>jobs := js @ [CatchJob r p False], store := store s, trace := trace s\<rparr>)"
        by (rule sequential_head_step[OF sq Cons hj]) simp_all
      then show ?thesis using ThenJob False by (simp add: m enqueue_def)
    next
      case True
      let ?st = "(store s)(r := (store s r)\<lparr>task_status := STATUS_SUCCESS\<rparr>)"
      let ?tr = "trace s @ [EVENT_TASK_SUCCESS r STATUS_SUCCESS (waitList s) (finishList s)]"
      show ?thesis
      proof (cases ?c)
        case c: True
        have eq: "run_job (ThenJob r p True) ?s0 =
                    s\<lparr>jobs := js @ [CatchJob r p True], store := ?st, trace := ?tr\<rparr>"
          using c by (simp add: enqueue_def emit_def set_task_status_def Let_def)
        have "sequential (s\<lparr>jobs := js @ [CatchJob r p True], store := ?st, trace := ?tr\<rparr>)"
          by (rule sequential_head_step[OF sq Cons hj]) (simp_all add: c)
        then show ?thesis using ThenJob True
          by (simp only: m eq)
      next
        case c: False
        let ?t = "s\<lparr>jobs := js, store := ?st, trace := ?tr\<rparr>"
        have "sequential ((next_task ?t)\<lparr>excuteList := drop 0 (excuteList (next_task ?t)),
                                           jobs := jobs (next_task ?t) @ [CatchJob r p True]\<rparr>)"
        proof (rule start[OF hj])
          show "\<And>x. task_status (store ?t x) \<noteq> STATUS_PEDDING"
            using fh(7) by (auto split: if_splits)
        qed (simp_all add: c)
        then show ?thesis using ThenJob True c
          by (simp add: m enqueue_def emit_def set_task_status_def Let_def)
      qed
    qed
  next
    case (CatchJob r p b)
    show ?thesis
    proof (cases "b \<and> \<not> ?c")
      case True
      then have nh: "head_pid ?c j = None" using CatchJob by simp
      have "sequential (s\<lparr>jobs := js @ [FinallyJob r p], excuteList := drop 0 (excuteList s),
                           finishList := finishList s\<rparr>)"
        by (rule sequential_tail_step[OF sq Cons nh]) (use CatchJob True in simp_all)
      then show ?thesis using CatchJob True by (simp add: m enqueue_def)
    next
      case False
      then have hj: "head_pid ?c j = Some (r, p)" using CatchJob by auto
      note fh = front_head[OF sq Cons hj]
      show ?thesis
      proof (cases b)
        case b: True
        then have c: ?c using False by simp
        have "unsettled s = []"
          using fh(1,3) Cons CatchJob b by (simp add: unsettled_def)
        then have np: "task_status (store s r) \<noteq> STATUS_PEDDING"
          using sequentialD(2)[OF sq, of r] by auto
        have "sequential (s\<lparr>jobs := js @ [FinallyJob r p], store := store s, trace := trace s\<rparr>)"
          by (rule sequential_head_step[OF sq Cons hj]) (simp_all add: c np)
        then show ?thesis using CatchJob b by (simp add: m enqueue_def)
      next
        case b: False
        let ?st = "(store s)(r := (store s r)\<lparr>task_status := STATUS_FAILURE\<rparr>)"
        let ?tr = "trace s @ [EVENT_TASK_FAILURE r STATUS_FAILURE (waitList s) (finishList s)]"
        have "sequential (s\<lparr>jobs := js @ [FinallyJob r p], store := ?st, trace := ?tr\<rparr>)"
        proof (cases ?c)
          case True
          show ?thesis
            by (rule sequential_head_step[OF sq Cons hj]) (simp_all add: True)
        next
          case False
          show ?thesis
            by (rule sequential_head_dies[OF sq Cons hj]) (simp_all add: False)
        qed
        moreover have "run_job (CatchJob r p False) ?s0 =
                         s\<lparr>jobs := js @ [FinallyJob r p], store := ?st, trace := ?tr\<rparr>"
          by (simp add: enqueue_def emit_def set_task_status_def Let_def)
        ultimately show ?thesis using CatchJob b
          by (simp only: m)
      qed
    qed
  next
    case (FinallyJob r p)
    define fl where "fl = (if \<not> removeAfterFinish (options s) then finishList s @ [r]
                             else finishList s)"
    show ?thesis
    proof (cases ?c)
      case c: True
      then have hj: "head_pid ?c j = Some (r, p)" using FinallyJob by simp
      note fh = front_head[OF sq Cons hj]
      let ?t = "s\<lparr>jobs := js, finishList := fl\<rparr>"
      have un: "unsettled s = []"
        using fh(1,3) Cons FinallyJob by (simp add: unsettled_def)
      have "sequential ((next_task ?t)\<lparr>excuteList := drop 1 (excuteList (next_task ?t)),
                         jobs := jobs (next_task ?t) @ [ThunkJob, ResolveThenableJob p]\<rparr>)"
      proof (rule start[OF hj])
        show "\<And>x. task_status (store ?t x) \<noteq> STATUS_PEDDING"
          using sequentialD(2)[OF sq] un by auto
      qed auto
      then show ?thesis using FinallyJob c
        by (cases "removeAfterFinish (options s)")
           (simp_all add: m enqueue_def Let_def fl_def)
    next
      case c: False
      then have nh: "head_pid ?c j = None" using FinallyJob by simp
      have "sequential (s\<lparr>jobs := js @ [ThunkJob, ResolveThenableJob p],
                           excuteList := drop 1 (excuteList s), finishList := fl\<rparr>)"
        by (rule sequential_tail_step[OF sq Cons nh]) (use FinallyJob in auto)
      moreover have "run_job (FinallyJob r p) ?s0 =
                       s\<lparr>jobs := js @ [ThunkJob, ResolveThenableJob p],
                         excuteList := drop 1 (excuteList s), finishList := fl\<rparr>"
        using c by (cases "removeAfterFinish (options s)")
                   (simp_all add: enqueue_def Let_def fl_def)
      ultimately show ?thesis using FinallyJob
        by (simp only: m)
    qed
  next
    case ThunkJob
    have "sequential (s\<lparr>jobs := js @ [], excuteList := drop 0 (excuteList s),
                         finishList := finishList s\<rparr>)"
      by (rule sequential_tail_step[OF sq Cons]) (use ThunkJob in simp_all)
    then show ?thesis using ThunkJob by (simp add: m)
  next
    case (ResolveThenableJob p)
    have "sequential (s\<lparr>jobs := js @ [FulfilJob p], excuteList := drop 0 (excuteList s),
                         finishList := finishList s\<rparr>)"
      by (rule sequential_tail_step[OF sq Cons]) (use ResolveThenableJob in simp_all)
    then show ?thesis using ResolveThenableJob by (simp add: m enqueue_def)
  next
    case (FulfilJob p)
    then show ?thesis using sequential_fulfil[OF sq, of p js] Cons
      by (simp add: m Let_def)
  next
    case (AllElemJob a)
    then show ?thesis using sequential_all_elem[OF sq, of a js] Cons
      by (simp only: m)
  next
    case PauseFinallyJob
    then show ?thesis using sequential_pause_finally[OF sq, of js] Cons
      by (simp only: m)
  qed
qed

text \<open>
  With subscribers that only observe and task bodies that leave the queue alone, the
  engine with caller code is the engine of the first sections.
\<close>

lemma next_with_quiet:
  assumes "\<And>e t. subs e t = t" "\<And>r t. body r t = t"
  shows "next_with subs body s = next_task s"
  by (simp add: next_with_def next_task_def emit_with_def assms Let_def split: list.splits)

lemma exec_with_quiet:
  assumes "\<And>e t. subs e t = t" "\<And>r t. body r t = t"
  shows "exec_with subs body s = exec s"
  by (simp add: exec_with_def exec_def emit_with_def next_with_quiet[OF assms] assms Let_def)

lemma run_job_with_quiet:
  assumes "\<And>e t. subs e t = t" "\<And>r t. body r t = t"
  shows "run_job_with subs body j s = run_job j s"
  by (cases j) (simp_all add: emit_with_def next_with_quiet[OF assms] assms Let_def)

lemma microtask_with_quiet:
  assumes "\<And>e t. subs e t = t" "\<And>r t. body r t = t"
  shows "microtask_with subs body s = microtask s"
  by (simp add: microtask_with_def microtask_def run_job_with_quiet[OF assms]
           split: list.splits)

lemma push_with_quiet:
  assumes "\<And>e t. subs e t = t" "\<And>r t. body r t = t"
  shows "push_with subs body i f cb s = push i f cb s"
  by (simp add: push_with_def push_def emit_with_def exec_with_quiet[OF assms] assms Let_def
           split: option.splits)

lemma resume_with_quiet:
  assumes "\<And>e t. subs e t = t" "\<And>r t. body r t = t"
  shows "resume_with subs body s = resume s"
  by (simp add: resume_with_def resume_def exec_with_quiet[OF assms])

lemma sequential_reachable:
  assumes "caller_run subs body opts s" "\<And>e t. subs e t = t" "\<And>r t. body r t = t"
  shows "sequential s"
  using assms(1)
proof (induction rule: caller_run.induct)
  case run_new
  show ?case by (rule sequential_new)
next
  case (run_push s i f cb)
  then show ?case by (simp add: push_with_quiet[OF assms(2,3)] sequential_push)
next
  case (run_exec s)
  then show ?case by (simp add: exec_with_quiet[OF assms(2,3)] sequential_exec)
next
  case (run_pause s)
  then show ?case by (simp add: sequential_pause)
next
  case (run_resume s)
  then show ?case by (simp add: resume_with_quiet[OF assms(2,3)] sequential_resume)
next
  case (run_settle s k)
  then show ?case by (simp add: sequential_settle)
next
  case (run_microtask s)
  then show ?case by (simp add: microtask_with_quiet[OF assms(2,3)] sequential_microtask)
qed

text \<open>
  In such a run a queue that is neither running nor about to pause has no pending task:
  after a \<open>pause()\<close> called between two jobs, the status leaves
  \<open>STATUS_QUEUE_BEFORE_PAUSE\<close> only when the task in flight has settled.
\<close>

lemma pause_waits_between_jobs:
  assumes "caller_run subs body opts s" "\<And>e t. subs e t = t" "\<And>r t. body r t = t"
    "\<not> isRunning s" "\<not> isBeforePause s"
  shows "task_status (store s r) \<noteq> STATUS_PEDDING"
proof
  assume p: "task_status (store s r) = STATUS_PEDDING"
  have sq: "sequential s" by (rule sequential_reachable[OF assms(1,2,3)])
  have "r \<in> set (unsettled s)" by (rule sequentialD(2)[OF sq p])
  then have "head_list s \<noteq> []" using unsettled_sub_heads[of s] by auto
  then show False using sequentialD(3)[OF sq assms(4,5)] by simp
qed











end
